theory Spec2Isabelle
  imports Complex_Main "HOL-Library.Product_Lexorder"
begin

section \<open>Characters, strings and numbers as Python has them\<close>

text \<open>
  A Python \<open>str\<close> is a sequence of code points. It is modelled as a \<^typ>\<open>string\<close> whose
  characters are the code points 0 to 255 (Latin-1), so \<^const>\<open>length\<close> counts what
  \<open>len\<close> counts. The character classes below are those of the \<open>re\<close> module and of the
  \<open>str\<close> methods on that range. Code points above 255 are outside the model.
\<close>

definition code :: "char \<Rightarrow> nat" where
  "code c = of_char c"

text \<open>\<open>\d\<close>: the decimal digits.\<close>

definition is_digit :: "char \<Rightarrow> bool" where
  "is_digit c \<longleftrightarrow> 48 \<le> code c \<and> code c \<le> 57"

text \<open>\<open>\s\<close> and the characters removed by \<open>str.strip()\<close>.\<close>

definition is_space :: "char \<Rightarrow> bool" where
  "is_space c \<longleftrightarrow> (9 \<le> code c \<and> code c \<le> 13) \<or> (28 \<le> code c \<and> code c \<le> 32)
     \<or> code c = 133 \<or> code c = 160"

text \<open>\<open>\w\<close>: letters, numeric characters and the underscore.\<close>

definition is_word :: "char \<Rightarrow> bool" where
  "is_word c \<longleftrightarrow> (48 \<le> code c \<and> code c \<le> 57) \<or> (65 \<le> code c \<and> code c \<le> 90)
     \<or> code c = 95 \<or> (97 \<le> code c \<and> code c \<le> 122)
     \<or> code c = 170 \<or> code c = 178 \<or> code c = 179 \<or> code c = 181
     \<or> code c = 185 \<or> code c = 186 \<or> (188 \<le> code c \<and> code c \<le> 190)
     \<or> (192 \<le> code c \<and> code c \<le> 214) \<or> (216 \<le> code c \<and> code c \<le> 246)
     \<or> 248 \<le> code c"

text \<open>
  \<open>str.lower()\<close>: the upper-case letters are A to Z and the code points 192 to 222 but 215;
  each lower-case partner is 32 higher, which is bit 5 of the code point.
\<close>

definition is_upper :: "char \<Rightarrow> bool" where
  "is_upper c \<longleftrightarrow> (65 \<le> code c \<and> code c \<le> 90) \<or> (192 \<le> code c \<and> code c \<le> 214)
     \<or> (216 \<le> code c \<and> code c \<le> 222)"

fun set_bit5 :: "char \<Rightarrow> char" where
  "set_bit5 (Char b0 b1 b2 b3 b4 b5 b6 b7) = Char b0 b1 b2 b3 b4 True b6 b7"

definition lower_char :: "char \<Rightarrow> char" where
  "lower_char c = (if is_upper c then set_bit5 c else c)"

definition lower :: "string \<Rightarrow> string" where
  "lower s = map lower_char s"

definition strip :: "string \<Rightarrow> string" where
  "strip s = rev (dropWhile is_space (rev (dropWhile is_space s)))"

text \<open>\<open>needle in haystack\<close> on strings: the needle occurs at some position.\<close>

definition starts_with :: "string \<Rightarrow> string \<Rightarrow> bool" where
  "starts_with p s \<longleftrightarrow> take (length p) s = p"

fun py_in :: "string \<Rightarrow> string \<Rightarrow> bool" where
  "py_in p [] = (p = [])"
| "py_in p (c # cs) = (starts_with p (c # cs) \<or> py_in p cs)"

datatype error = ValueError | AttributeError | TypeError | FileNotFoundError | JSONDecodeError

subsection \<open>Integers and text\<close>

definition digit_char :: "nat \<Rightarrow> char" where
  "digit_char d =
     (if d = 0 then CHR ''0'' else if d = 1 then CHR ''1'' else if d = 2 then CHR ''2''
      else if d = 3 then CHR ''3'' else if d = 4 then CHR ''4'' else if d = 5 then CHR ''5''
      else if d = 6 then CHR ''6'' else if d = 7 then CHR ''7'' else if d = 8 then CHR ''8''
      else CHR ''9'')"

fun str_nat :: "nat \<Rightarrow> string" where
  "str_nat n = (if n < 10 then [digit_char n] else str_nat (n div 10) @ [digit_char (n mod 10)])"

declare str_nat.simps [simp del]

text \<open>\<open>str(n)\<close> and the \<open>{n}\<close> of an f-string, for an integer.\<close>

definition str_int :: "int \<Rightarrow> string" where
  "str_int n = (if n < 0 then CHR ''-'' # str_nat (nat (- n)) else str_nat (nat n))"

definition zfill :: "nat \<Rightarrow> string \<Rightarrow> string" where
  "zfill w s = replicate (w - length s) CHR ''0'' @ s"

text \<open>
  The format \<open>{n:0wd}\<close>: zeros up to width \<open>w\<close>, the sign counted in the width and
  written before the zeros.
\<close>

definition fmt_0d :: "nat \<Rightarrow> int \<Rightarrow> string" where
  "fmt_0d w n = (if n < 0 then CHR ''-'' # zfill (w - 1) (str_nat (nat (- n)))
                 else zfill w (str_nat (nat n)))"

text \<open>
  \<open>int(s)\<close> on a string, base ten: white space around the number is dropped (of the
  characters of \<^const>\<open>is_space\<close>, \<open>int\<close> does not accept 28 to 31), one sign may come
  first, and single underscores may stand between digits. Anything else raises
  \<open>ValueError\<close>. Python's integers are unbounded, hence \<^typ>\<open>int\<close>; the interpreter's
  optional limit on the number of digits converted (4300 by default) is not modelled.
\<close>

definition is_int_space :: "char \<Rightarrow> bool" where
  "is_int_space c \<longleftrightarrow> (9 \<le> code c \<and> code c \<le> 13) \<or> code c = 32 \<or> code c = 133 \<or> code c = 160"

definition digit_val :: "char \<Rightarrow> nat" where
  "digit_val c = code c - 48"

definition dec_value :: "string \<Rightarrow> nat" where
  "dec_value ds = foldl (\<lambda>a c. 10 * a + digit_val c) 0 ds"

fun digits_ok :: "string \<Rightarrow> bool" where
  "digits_ok [] = False"
| "digits_ok [c] = is_digit c"
| "digits_ok (c # d # cs) =
     (is_digit c \<and> (if d = CHR ''_'' then digits_ok cs else digits_ok (d # cs)))"

definition split_sign :: "string \<Rightarrow> bool \<times> string" where
  "split_sign t =
     (case t of
        [] \<Rightarrow> (False, t)
      | c # r \<Rightarrow> if c = CHR ''-'' then (True, r) else if c = CHR ''+'' then (False, r)
                 else (False, t))"

definition py_int :: "string \<Rightarrow> error + int" where
  "py_int s =
     (let t = rev (dropWhile is_int_space (rev (dropWhile is_int_space s)));
          (neg, body) = split_sign t
      in if digits_ok body
         then Inr ((if neg then - 1 else 1) * int (dec_value (filter (\<lambda>c. c \<noteq> CHR ''_'') body)))
         else Inl ValueError)"

section \<open>Episode identifier\<close>

text \<open>
  \<open>episode_number\<close> is an \<open>int\<close>, a \<open>str\<close> such as \<open>"P25"\<close>, or \<open>None\<close>.
\<close>

datatype ep_num = EpInt int | EpStr string | EpNone

text \<open>
  \<open>re.search(lit + r'(\d+)', title, re.IGNORECASE)\<close> for a literal \<open>lit\<close> of ASCII
  letters, hyphens and blanks: \<^term>\<open>match_here\<close> tries the pattern at the start of the
  text and returns group 1, the longest run of digits after the literal;
  \<^term>\<open>re_search_number\<close> tries every start from left to right. On the modelled code
  points a character matches an ASCII letter of the pattern, case ignored, exactly when
  both have the same lower-case form.
\<close>

definition match_here :: "string \<Rightarrow> string \<Rightarrow> string option" where
  "match_here lit s =
     (if length lit \<le> length s \<and> lower (take (length lit) s) = lower lit
      then (case takeWhile is_digit (drop (length lit) s) of
              [] \<Rightarrow> None
            | d # ds \<Rightarrow> Some (d # ds))
      else None)"

fun re_search_number :: "string \<Rightarrow> string \<Rightarrow> string option" where
  "re_search_number lit [] = match_here lit []"
| "re_search_number lit (c # cs) =
     (case match_here lit (c # cs) of
        Some g \<Rightarrow> Some g
      | None \<Rightarrow> re_search_number lit cs)"

definition extract_episode_number :: "string \<Rightarrow> error + ep_num" where
  "extract_episode_number title =
     (case re_search_number ''Paid-only episode '' title of
        Some g \<Rightarrow> Inr (EpStr (CHR ''P'' # g))
      | None \<Rightarrow>
          (case re_search_number ''Episode '' title of
             Some g \<Rightarrow> (case py_int g of Inl e \<Rightarrow> Inl e | Inr n \<Rightarrow> Inr (EpInt n))
           | None \<Rightarrow> Inr EpNone))"


section \<open>Audio fetcher\<close>

record episode =
  title :: string
  episode_number :: ep_num
  published :: string
  audio_url :: "string option"
  link :: string

text \<open>\<open>re.sub(r'[-\s]+', '-', s)\<close>: every maximal run of hyphens and white space becomes one hyphen.\<close>

definition is_sep :: "char \<Rightarrow> bool" where
  "is_sep c \<longleftrightarrow> c = CHR ''-'' \<or> is_space c"

function sub_seps :: "string \<Rightarrow> string" where
  "sub_seps [] = []"
| "sub_seps (c # cs) =
     (if is_sep c then CHR ''-'' # sub_seps (dropWhile is_sep cs) else c # sub_seps cs)"
  by pat_completeness auto
termination
  by (relation "measure length") (auto simp: less_Suc_eq_le length_dropWhile_le)

text \<open>
  The two assignments to \<open>safe_title\<close>: \<open>re.sub(r'[^\w\s-]', '', title).strip()\<close>, then
  the runs replaced (\<^term>\<open>sanitize\<close> is the text at that point) and the result cut
  to 50 characters.
\<close>

definition sanitize :: "string \<Rightarrow> string" where
  "sanitize t = sub_seps (strip (filter (\<lambda>c. is_word c \<or> is_space c \<or> c = CHR ''-'') t))"

definition safe_title :: "string \<Rightarrow> string" where
  "safe_title t = take 50 (sanitize t)"

definition audio_filename :: "episode \<Rightarrow> string" where
  "audio_filename ep =
     (case episode_number ep of
        EpInt n \<Rightarrow> fmt_0d 3 n @ ''_'' @ safe_title (title ep) @ ''.mp3''
      | EpStr tag \<Rightarrow> tag @ ''_'' @ safe_title (title ep) @ ''.mp3''
      | EpNone \<Rightarrow> safe_title (title ep) @ ''.mp3'')"

text \<open>
  The outcome of the streamed HTTP GET: it fails before the file is opened (the request or
  \<open>raise_for_status\<close> raises), it breaks after the file was opened and part of the body
  written, or it delivers the whole body.
\<close>

datatype fetch_outcome = FetchFailed | FetchBroken string | FetchDone string

text \<open>
  The downloads directory maps a file name to its content. \<open>download_episode\<close> returns
  the path (or \<open>None\<close>, or the exception that leaves the function), the directory
  afterwards, and the URLs requested over HTTP.
\<close>

type_synonym directory = "string \<rightharpoonup> string"

definition fetch_to :: "(string \<Rightarrow> fetch_outcome) \<Rightarrow> directory \<Rightarrow> string \<Rightarrow> string
    \<Rightarrow> (error + string option) \<times> directory \<times> string list" where
  "fetch_to http files url filename =
     (case http url of
        FetchFailed \<Rightarrow> (Inr None, files, [url])
      | FetchBroken part \<Rightarrow> (Inr None, files(filename \<mapsto> part), [url])
      | FetchDone body \<Rightarrow> (Inr (Some filename), files(filename \<mapsto> body), [url]))"

definition download_episode :: "(string \<Rightarrow> fetch_outcome) \<Rightarrow> directory \<Rightarrow> episode
    \<Rightarrow> (error + string option) \<times> directory \<times> string list" where
  "download_episode http files ep =
     (case audio_url ep of
        None \<Rightarrow> (Inr None, files, [])
      | Some url \<Rightarrow>
          if url = [] then (Inr None, files, [])
          else
            let filename = audio_filename ep in
            if files filename \<noteq> None then (Inr (Some filename), files, [])
            else
              (case episode_number ep of
                 EpStr tag \<Rightarrow>
                   if starts_with ''P'' tag then
                     (case py_int (drop 1 tag) of
                        Inl e \<Rightarrow> (Inl e, files, [])
                      | Inr old_num \<Rightarrow>
                          let old_filename = fmt_0d 3 old_num @ ''_'' @ safe_title (title ep) @ ''.mp3''
                          in if files old_filename \<noteq> None
                             then (Inr (Some old_filename), files, [])
                             else fetch_to http files url filename)
                   else fetch_to http files url filename
               | _ \<Rightarrow> fetch_to http files url filename))"

text \<open>The fetcher as the driver's first stage, the downloads directory being the world.\<close>

definition fetcher_stage :: "(string \<Rightarrow> fetch_outcome) \<Rightarrow> directory \<Rightarrow> episode
    \<Rightarrow> (error + string option) \<times> directory" where
  "fetcher_stage http files ep =
     (case download_episode http files ep of (r, files', requests) \<Rightarrow> (r, files'))"

text \<open>A network on which every request fails.\<close>

definition no_network :: "string \<Rightarrow> fetch_outcome" where
  "no_network url = FetchFailed"

section \<open>Topic extractor\<close>

text \<open>
  Seconds are real numbers: every finite float is one, and \<open>//\<close>, \<open>%\<close> and \<open>int\<close>
  give on the floats a transcript holds what floor and remainder give on the reals.
\<close>

record segment =
  seg_text :: string
  seg_start :: real

record transcript =
  full_text :: string
  segments :: "segment list option"

definition py_mod :: "real \<Rightarrow> real \<Rightarrow> real" where
  "py_mod x m = x - m * of_int \<lfloor>x / m\<rfloor>"

definition format_timestamp :: "real \<Rightarrow> string" where
  "format_timestamp seconds =
     (let hours = \<lfloor>seconds / 3600\<rfloor>;
          minutes = \<lfloor>py_mod seconds 3600 / 60\<rfloor>;
          secs = \<lfloor>py_mod seconds 60\<rfloor>
      in if hours > 0
         then str_int hours @ '':'' @ fmt_0d 2 minutes @ '':'' @ fmt_0d 2 secs
         else str_int minutes @ '':'' @ fmt_0d 2 secs)"

text \<open>What \<open>json.loads\<close> returns. An object is the list of its members.\<close>

datatype json = JNull | JBool bool | JInt int | JFloat real | JStr string
  | JArr "json list" | JObj "(string \<times> json) list"

text \<open>\<open>not v\<close>.\<close>

fun falsy :: "json \<Rightarrow> bool" where
  "falsy JNull = True"
| "falsy (JBool b) = (\<not> b)"
| "falsy (JInt n) = (n = 0)"
| "falsy (JFloat x) = (x = 0)"
| "falsy (JStr s) = (s = [])"
| "falsy (JArr xs) = (xs = [])"
| "falsy (JObj kvs) = (kvs = [])"

text \<open>\<open>d.get(key, default)\<close>.\<close>

definition get :: "(string \<times> json) list \<Rightarrow> string \<Rightarrow> json \<Rightarrow> json" where
  "get kvs key dflt = (case map_of kvs key of None \<Rightarrow> dflt | Some v \<Rightarrow> v)"

text \<open>The loop of \<open>_find_timestamp\<close> over the segments.\<close>

fun scan_segments :: "string \<Rightarrow> segment list \<Rightarrow> string" where
  "scan_segments quote_lower [] = ''Unknown''"
| "scan_segments quote_lower (seg # segs) =
     (let segment_text = lower (seg_text seg)
      in if py_in quote_lower segment_text \<or> py_in segment_text quote_lower
         then format_timestamp (seg_start seg)
         else scan_segments quote_lower segs)"

text \<open>
  \<open>_find_timestamp\<close>. The quote is whatever the model's JSON held under \<open>"quote"\<close>; a
  value that is not a string and not false has no method \<open>lower\<close>.
\<close>

definition find_timestamp :: "transcript \<Rightarrow> json \<Rightarrow> error + string" where
  "find_timestamp tr quote =
     (if falsy quote then Inr ''Unknown''
      else case segments tr of
             None \<Rightarrow> Inr ''Unknown''
           | Some segs \<Rightarrow>
               (case quote of
                  JStr q \<Rightarrow> Inr (scan_segments (take 50 (lower q)) segs)
                | _ \<Rightarrow> Inl AttributeError))"

subsection \<open>The JSON payload of a response\<close>

definition backticks :: string where
  "backticks = [CHR 0x60, CHR 0x60, CHR 0x60]"

text \<open>
  \<open>re.search(r'```json\s*(\[.*?\])\s*```', text, re.DOTALL)\<close>. After the opening bracket
  the lazy \<open>.*?\<close> stops at the first closing bracket that is followed by optional white
  space and three backticks: \<^term>\<open>lazy_body\<close> returns the text up to that bracket.
\<close>

fun lazy_body :: "string \<Rightarrow> string option" where
  "lazy_body [] = None"
| "lazy_body (c # cs) =
     (if c = CHR '']'' \<and> starts_with backticks (dropWhile is_space cs) then Some [c]
      else map_option ((#) c) (lazy_body cs))"

definition fenced_here :: "string \<Rightarrow> string option" where
  "fenced_here s =
     (if starts_with (backticks @ ''json'') s
      then (case dropWhile is_space (drop 7 s) of
              [] \<Rightarrow> None
            | c # cs \<Rightarrow> if c = CHR ''['' then map_option ((#) c) (lazy_body cs) else None)
      else None)"

fun search_fenced :: "string \<Rightarrow> string option" where
  "search_fenced [] = None"
| "search_fenced (c # cs) =
     (case fenced_here (c # cs) of Some g \<Rightarrow> Some g | None \<Rightarrow> search_fenced cs)"

text \<open>
  \<open>re.search(r'(\[.*\])', text, re.DOTALL)\<close>: from the first opening bracket that has a
  closing bracket after it, the greedy \<open>.*\<close> runs to the last closing bracket.
\<close>

definition to_last_close :: "string \<Rightarrow> string" where
  "to_last_close cs = rev (dropWhile (\<lambda>c. c \<noteq> CHR '']'') (rev cs))"

fun search_bare :: "string \<Rightarrow> string option" where
  "search_bare [] = None"
| "search_bare (c # cs) =
     (if c = CHR ''['' \<and> CHR '']'' \<in> set cs then Some (c # to_last_close cs)
      else search_bare cs)"

definition extract_json_payload :: "string \<Rightarrow> string" where
  "extract_json_payload response_text =
     (case search_fenced response_text of
        Some g \<Rightarrow> g
      | None \<Rightarrow> (case search_bare response_text of Some g \<Rightarrow> g | None \<Rightarrow> ''[]''))"

subsection \<open>Findings\<close>

record finding =
  f_episode_number :: ep_num
  f_episode_title :: string
  f_timestamp :: string
  f_topic :: json
  f_quote :: json
  f_context :: json

text \<open>One round of the loop over the parsed findings: only an object has \<open>get\<close>.\<close>

definition enhance :: "episode \<Rightarrow> transcript \<Rightarrow> json \<Rightarrow> error + finding" where
  "enhance ep tr f =
     (case f of
        JObj kvs \<Rightarrow>
          (case find_timestamp tr (get kvs ''quote'' (JStr [])) of
             Inl e \<Rightarrow> Inl e
           | Inr ts \<Rightarrow>
               Inr \<lparr> f_episode_number = episode_number ep, f_episode_title = title ep,
                     f_timestamp = ts, f_topic = get kvs ''topic'' (JStr ''Unknown''),
                     f_quote = get kvs ''quote'' (JStr []),
                     f_context = get kvs ''context'' (JStr []) \<rparr>)
      | _ \<Rightarrow> Inl AttributeError)"

fun enhance_all :: "episode \<Rightarrow> transcript \<Rightarrow> json list \<Rightarrow> error + finding list" where
  "enhance_all ep tr [] = Inr []"
| "enhance_all ep tr (f # fs) =
     (case enhance ep tr f of
        Inl e \<Rightarrow> Inl e
      | Inr x \<Rightarrow> (case enhance_all ep tr fs of Inl e \<Rightarrow> Inl e | Inr xs \<Rightarrow> Inr (x # xs)))"

text \<open>
  \<open>for finding in findings\<close> on what \<open>json.loads\<close> returned: a list gives its elements,
  an object its keys, a string its characters, anything else is not iterable.
\<close>

definition iterate :: "json \<Rightarrow> error + json list" where
  "iterate v =
     (case v of
        JArr xs \<Rightarrow> Inr xs
      | JObj kvs \<Rightarrow> Inr (map (\<lambda>kv. JStr (fst kv)) kvs)
      | JStr s \<Rightarrow> Inr (map (\<lambda>c. JStr [c]) s)
      | _ \<Rightarrow> Inl TypeError)"

text \<open>
  The body of the \<open>try\<close> of \<open>analyze_with_claude\<close> from the response text on;
  \<open>json_loads\<close> is the library's parser, \<open>None\<close> where it raises.
\<close>

definition parse_findings :: "(string \<Rightarrow> json option) \<Rightarrow> episode \<Rightarrow> transcript \<Rightarrow> string
    \<Rightarrow> error + finding list" where
  "parse_findings json_loads ep tr response_text =
     (case json_loads (extract_json_payload response_text) of
        None \<Rightarrow> Inl JSONDecodeError
      | Some findings \<Rightarrow>
          (case iterate findings of
             Inl e \<Rightarrow> Inl e
           | Inr fs \<Rightarrow> enhance_all ep tr fs))"

text \<open>
  \<open>analyze_with_claude\<close>: the response is \<open>None\<close> when the request to the model raised.
  \<open>except Exception\<close> turns every exception into an empty list.
\<close>

definition analyze_with_claude :: "(string \<Rightarrow> json option) \<Rightarrow> episode \<Rightarrow> transcript
    \<Rightarrow> string option \<Rightarrow> finding list" where
  "analyze_with_claude json_loads ep tr response =
     (case response of
        None \<Rightarrow> []
      | Some response_text \<Rightarrow>
          (case parse_findings json_loads ep tr response_text of
             Inl e \<Rightarrow> []
           | Inr enhanced_findings \<Rightarrow> enhanced_findings))"


section \<open>Progress store and pipeline driver\<close>

record progress_record =
  episodes_parsed :: "json list"
  episodes_transcribed :: "json list"
  episodes_analyzed :: "json list"
  results :: "finding list"

text \<open>\<open>_load_progress\<close>, given the content of the progress file if there is one.\<close>

definition load_progress :: "progress_record option \<Rightarrow> progress_record" where
  "load_progress file =
     (case file of
        Some p \<Rightarrow> p
      | None \<Rightarrow> \<lparr> episodes_parsed = [], episodes_transcribed = [], episodes_analyzed = [],
                  results = [] \<rparr>)"

text \<open>
  The analyzer object: \<open>self.progress\<close>, the progress file on disk, and the rest of the
  world the stages act on (the cache directories, the feed's server, the transcription
  engine, the language model).
\<close>

record 'w analyzer =
  progress :: progress_record
  progress_file :: "progress_record option"
  world :: 'w

definition init :: "progress_record option \<Rightarrow> 'w \<Rightarrow> 'w analyzer" where
  "init file w = \<lparr> progress = load_progress file, progress_file = file, world = w \<rparr>"

definition save_progress :: "'w analyzer \<Rightarrow> 'w analyzer" where
  "save_progress a = a\<lparr>progress_file := Some (progress a)\<rparr>"

text \<open>
  The three stages as the driver calls them. A stage returns \<open>None\<close> to have the episode
  skipped, or leaves by an exception it does not catch, or returns its result.
\<close>

record 'w stages =
  download :: "'w \<Rightarrow> episode \<Rightarrow> (error + string option) \<times> 'w"
  transcribe :: "'w \<Rightarrow> episode \<Rightarrow> string \<Rightarrow> (error + transcript option) \<times> 'w"
  analyze :: "'w \<Rightarrow> episode \<Rightarrow> transcript \<Rightarrow> finding list \<times> 'w"

text \<open>The loop of \<open>process_episodes\<close>, with the local list \<open>all_findings\<close>.\<close>

fun process_loop :: "'w stages \<Rightarrow> episode list \<Rightarrow> finding list \<Rightarrow> 'w analyzer
    \<Rightarrow> (error + finding list) \<times> 'w analyzer" where
  "process_loop S [] all_findings a = (Inr all_findings, a)"
| "process_loop S (ep # eps) all_findings a =
     (case download S (world a) ep of
        (Inl e, w1) \<Rightarrow> (Inl e, a\<lparr>world := w1\<rparr>)
      | (Inr None, w1) \<Rightarrow> process_loop S eps all_findings (a\<lparr>world := w1\<rparr>)
      | (Inr (Some audio_path), w1) \<Rightarrow>
          (case transcribe S w1 ep audio_path of
             (Inl e, w2) \<Rightarrow> (Inl e, a\<lparr>world := w2\<rparr>)
           | (Inr None, w2) \<Rightarrow> process_loop S eps all_findings (a\<lparr>world := w2\<rparr>)
           | (Inr (Some tr), w2) \<Rightarrow>
               (case analyze S w2 ep tr of
                  (findings, w3) \<Rightarrow>
                    process_loop S eps (all_findings @ findings)
                      (save_progress
                         (a\<lparr>world := w3,
                            progress := (progress a)\<lparr>results := all_findings @ findings\<rparr>\<rparr>)))))"

definition process_episodes :: "'w stages \<Rightarrow> episode list \<Rightarrow> 'w analyzer
    \<Rightarrow> (error + finding list) \<times> 'w analyzer" where
  "process_episodes S episodes a = process_loop S episodes [] a"

section \<open>Report generator\<close>

definition nl :: string where
  "nl = [CHR 0x0A]"

definition dq :: string where
  "dq = [CHR 0x22]"

text \<open>\<open>s.replace(c, r)\<close> for a one-character \<open>c\<close>.\<close>

definition replace_char :: "char \<Rightarrow> string \<Rightarrow> string \<Rightarrow> string" where
  "replace_char c r s = concat (map (\<lambda>x. if x = c then r else [x]) s)"

text \<open>The key function of the sort; \<open>int\<close> may raise.\<close>

definition sort_key_finding :: "finding \<Rightarrow> error + nat \<times> int" where
  "sort_key_finding x =
     (case f_episode_number x of
        EpNone \<Rightarrow> Inr (2, 0)
      | EpStr ep_num \<Rightarrow> (case py_int (drop 1 ep_num) of Inl e \<Rightarrow> Inl e | Inr n \<Rightarrow> Inr (1, n))
      | EpInt ep_num \<Rightarrow> Inr (0, ep_num))"

text \<open>
  \<open>xs.sort(key=key, reverse=True)\<close>: the keys of all elements are computed first, in
  order, and an exception there leaves the list as it was; then the list is reversed,
  sorted stably by key, and reversed again, so that elements with equal keys keep their
  order.
\<close>

fun keys_of :: "('a \<Rightarrow> error + 'k) \<Rightarrow> 'a list \<Rightarrow> error + 'k list" where
  "keys_of key [] = Inr []"
| "keys_of key (x # xs) =
     (case key x of
        Inl e \<Rightarrow> Inl e
      | Inr k \<Rightarrow> (case keys_of key xs of Inl e \<Rightarrow> Inl e | Inr ks \<Rightarrow> Inr (k # ks)))"

definition sort_reverse :: "('a \<Rightarrow> error + 'k::linorder) \<Rightarrow> 'a list \<Rightarrow> error + 'a list" where
  "sort_reverse key xs =
     (case keys_of key xs of
        Inl e \<Rightarrow> Inl e
      | Inr ks \<Rightarrow> Inr (map snd (rev (sort_key fst (rev (zip ks xs))))))"

text \<open>\<open>{finding["episode_number"]}\<close> in an f-string.\<close>

definition ep_text :: "ep_num \<Rightarrow> string" where
  "ep_text n = (case n of EpInt i \<Rightarrow> str_int i | EpStr s \<Rightarrow> s | EpNone \<Rightarrow> ''None'')"

text \<open>One line of each report; \<open>replace\<close> is a method of strings only.\<close>

definition csv_row :: "finding \<Rightarrow> error + string" where
  "csv_row f =
     (let title = replace_char (CHR 0x22) (dq @ dq) (f_episode_title f) in
      case f_topic f of
        JStr t \<Rightarrow>
          (let topic = replace_char (CHR 0x22) (dq @ dq) t in
           case f_context f of
             JStr c \<Rightarrow>
               (let context = replace_char (CHR 0x22) (dq @ dq) c in
                Inr (ep_text (f_episode_number f) @ '','' @ dq @ title @ dq @ '','' @ f_timestamp f
                     @ '','' @ dq @ topic @ dq @ '','' @ dq @ context @ dq @ nl))
           | _ \<Rightarrow> Inl AttributeError)
      | _ \<Rightarrow> Inl AttributeError)"

definition md_row :: "finding \<Rightarrow> error + string" where
  "md_row f =
     (let title = replace_char CHR ''|'' [CHR 0x5C, CHR ''|''] (f_episode_title f) in
      case f_topic f of
        JStr t \<Rightarrow>
          (let topic = replace_char CHR ''|'' [CHR 0x5C, CHR ''|''] t in
           case f_context f of
             JStr c \<Rightarrow>
               (let context = replace_char (CHR 0x0A) '' ''
                                (replace_char CHR ''|'' [CHR 0x5C, CHR ''|''] c) in
                Inr (''| '' @ ep_text (f_episode_number f) @ '' | '' @ title @ '' | ''
                     @ f_timestamp f @ '' | '' @ topic @ '' | '' @ context @ '' |'' @ nl))
           | _ \<Rightarrow> Inl AttributeError)
      | _ \<Rightarrow> Inl AttributeError)"

text \<open>
  A loop that writes one line per finding: what was written when the loop ended, and
  the exception that ended it, if one did.
\<close>

fun write_rows :: "(finding \<Rightarrow> error + string) \<Rightarrow> finding list \<Rightarrow> string \<times> error option" where
  "write_rows row [] = ([], None)"
| "write_rows row (f # fs) =
     (case row f of
        Inl e \<Rightarrow> ([], Some e)
      | Inr line \<Rightarrow> (case write_rows row fs of (out, e) \<Rightarrow> (line @ out, e)))"

definition csv_header :: string where
  "csv_header = ''Episode Number,Episode Title,Timestamp,Topic Summary,Context'' @ nl"

definition md_header :: "nat \<Rightarrow> string" where
  "md_header n =
     ''# Science Fictions: Future Episode Suggestions'' @ nl @ nl
     @ ''Total instances found: '' @ str_nat n @ nl @ nl
     @ ''| Episode # | Episode Title | Timestamp | Topic Summary | Context |'' @ nl
     @ ''|-----------|---------------|-----------|---------------|----------|'' @ nl"

text \<open>The two report files under the results directory, absent until written.\<close>

record reports =
  csv_file :: "string option"
  md_file :: "string option"

text \<open>
  \<open>generate_report\<close> of the analyzer: it sorts the list it is given in place and writes
  the two files. It returns the exception that ended it (if any), the list as it is
  afterwards, and the files. Opening a file for writing empties it, so an exception
  inside a loop leaves the lines written so far.
\<close>

definition generate_report :: "finding list \<Rightarrow> reports \<Rightarrow> error option \<times> finding list \<times> reports" where
  "generate_report findings files =
     (case sort_reverse sort_key_finding findings of
        Inl e \<Rightarrow> (Some e, findings, files)
      | Inr sorted_findings \<Rightarrow>
          (case write_rows csv_row sorted_findings of
             (csv_lines, Some e) \<Rightarrow>
               (Some e, sorted_findings, files\<lparr>csv_file := Some (csv_header @ csv_lines)\<rparr>)
           | (csv_lines, None) \<Rightarrow>
               (case write_rows md_row sorted_findings of
                  (md_lines, e) \<Rightarrow>
                    (e, sorted_findings,
                     files\<lparr>csv_file := Some (csv_header @ csv_lines),
                           md_file := Some (md_header (length sorted_findings) @ md_lines)\<rparr>))))"

text \<open>
  \<open>generate_report\<close> of the script that only regenerates the reports: the findings come
  from the progress file, which it does not write; the rest is the same code.
\<close>

record results_dir =
  progress_json :: "progress_record option"
  report_files :: reports

definition generate_report_only :: "results_dir \<Rightarrow> error option \<times> results_dir" where
  "generate_report_only d =
     (case progress_json d of
        None \<Rightarrow> (Some FileNotFoundError, d)
      | Some loaded \<Rightarrow>
          (case generate_report (results loaded) (report_files d) of
             (e, sorted_findings, files) \<Rightarrow> (e, d\<lparr>report_files := files\<rparr>)))"

section \<open>Notions of the specification\<close>

text \<open>
  A title matches the pattern made of a literal and a number when, somewhere in it, a
  text equal to the literal up to case is followed by a digit; \<open>occurs_at\<close> names the
  position. The first match is the leftmost one, with all the digits that follow.
\<close>

definition occurs_at :: "string \<Rightarrow> string \<Rightarrow> nat \<Rightarrow> bool" where
  "occurs_at lit t i \<longleftrightarrow>
     (\<exists>pre w d rest. t = pre @ w @ d # rest \<and> length pre = i \<and> lower w = lower lit \<and> is_digit d)"

definition title_matches :: "string \<Rightarrow> string \<Rightarrow> bool" where
  "title_matches lit t \<longleftrightarrow> (\<exists>i. occurs_at lit t i)"

definition first_match :: "string \<Rightarrow> string \<Rightarrow> string \<Rightarrow> bool" where
  "first_match lit t ds \<longleftrightarrow>
     (\<exists>pre w post. t = pre @ w @ ds @ post \<and> lower w = lower lit
        \<and> ds \<noteq> [] \<and> (\<forall>c\<in>set ds. is_digit c) \<and> (post = [] \<or> \<not> is_digit (hd post))
        \<and> (\<forall>j. occurs_at lit t j \<longrightarrow> length pre \<le> j))"

text \<open>
  A text is a substring of another when it occurs in it. A segment matches a quote when
  the first 50 characters of the lower-cased quote are a substring of the segment's
  lower-cased text, or that text is a substring of them.
\<close>

definition is_substring :: "string \<Rightarrow> string \<Rightarrow> bool" where
  "is_substring p s \<longleftrightarrow> (\<exists>pre post. s = pre @ p @ post)"

definition segment_matches :: "string \<Rightarrow> segment \<Rightarrow> bool" where
  "segment_matches quote seg \<longleftrightarrow>
     is_substring (take 50 (lower quote)) (lower (seg_text seg))
     \<or> is_substring (lower (seg_text seg)) (take 50 (lower quote))"

text \<open>
  A fenced array. A beginning \<open>b\<close> of a text closes it when \<open>b\<close> ends in a closing
  bracket that the text follows by optional white space and three backticks. A response
  has a fenced array \<open>arr\<close> at position \<open>i\<close> when, from that position on, it reads
  \<open>```json\<close>, optional white space, an opening bracket, and \<open>arr\<close> is that bracket with
  a beginning that closes the rest. The first fenced array is the one at the leftmost
  position, and the shortest one there.
\<close>

definition closing :: "string \<Rightarrow> string \<Rightarrow> bool" where
  "closing s b \<longleftrightarrow>
     (\<exists>body gap post. s = body @ CHR '']'' # gap @ backticks @ post
        \<and> (\<forall>c\<in>set gap. is_space c) \<and> b = body @ '']'')"

definition fenced_at :: "string \<Rightarrow> nat \<Rightarrow> string \<Rightarrow> bool" where
  "fenced_at r i arr \<longleftrightarrow>
     (\<exists>pre gap rest b. r = pre @ backticks @ ''json'' @ gap @ CHR ''['' # rest
        \<and> length pre = i \<and> (\<forall>c\<in>set gap. is_space c) \<and> closing rest b \<and> arr = CHR ''['' # b)"

definition has_fenced :: "string \<Rightarrow> bool" where
  "has_fenced r \<longleftrightarrow> (\<exists>i arr. fenced_at r i arr)"

definition first_fenced :: "string \<Rightarrow> string \<Rightarrow> bool" where
  "first_fenced r arr \<longleftrightarrow>
     (\<exists>i. fenced_at r i arr
        \<and> (\<forall>j arr'. fenced_at r j arr' \<longrightarrow> i < j \<or> (i = j \<and> length arr \<le> length arr')))"

text \<open>A text has brackets when an opening bracket in it is followed, later, by a closing one.\<close>

definition has_brackets :: "string \<Rightarrow> bool" where
  "has_brackets r \<longleftrightarrow> (\<exists>pre body post. r = pre @ CHR ''['' # body @ CHR '']'' # post)"

text \<open>
  A time of day in whole seconds: \<open>H:MM:SS\<close> from one hour on, else \<open>M:SS\<close>, minutes
  and seconds below 60 and written with two digits after a colon.
\<close>

definition two_digits :: "int \<Rightarrow> string" where
  "two_digits n = [digit_char (nat n div 10), digit_char (nat n mod 10)]"

definition clock :: "int \<Rightarrow> string" where
  "clock n =
     (if 3600 \<le> n
      then str_int (n div 3600) @ '':'' @ two_digits (n mod 3600 div 60) @ '':'' @ two_digits (n mod 60)
      else str_int (n mod 3600 div 60) @ '':'' @ two_digits (n mod 60))"

text \<open>
  Reading a report back: the lines of a text, the first field of a CSV line, and the
  first cell of a line of the Markdown table.
\<close>

primrec lines_of :: "string \<Rightarrow> string list" where
  "lines_of [] = [[]]"
| "lines_of (c # cs) =
     (if c = CHR 0x0A then [] # lines_of cs
      else (case lines_of cs of [] \<Rightarrow> [[c]] | l # ls \<Rightarrow> (c # l) # ls))"

definition csv_first_field :: "string \<Rightarrow> string" where
  "csv_first_field line = takeWhile (\<lambda>c. c \<noteq> CHR '','') line"

definition md_first_cell :: "string \<Rightarrow> string" where
  "md_first_cell line = takeWhile (\<lambda>c. c \<noteq> CHR '' '') (drop 2 line)"

text \<open>
  The findings of the episodes that complete their pipeline, one list per such episode
  in processing order, up to the first exception that ends the run.
\<close>

fun completed :: "'w stages \<Rightarrow> episode list \<Rightarrow> 'w \<Rightarrow> finding list list" where
  "completed S [] w = []"
| "completed S (ep # eps) w =
     (case download S w ep of
        (Inl e, w1) \<Rightarrow> []
      | (Inr None, w1) \<Rightarrow> completed S eps w1
      | (Inr (Some audio_path), w1) \<Rightarrow>
          (case transcribe S w1 ep audio_path of
             (Inl e, w2) \<Rightarrow> []
           | (Inr None, w2) \<Rightarrow> completed S eps w2
           | (Inr (Some tr), w2) \<Rightarrow>
               (case analyze S w2 ep tr of (findings, w3) \<Rightarrow> findings # completed S eps w3)))"

section \<open>Example stages\<close>

text \<open>
  Stages to run the driver on concrete episodes: the audio fetcher over a given network,
  a transcriber that returns the title as the transcript, and an analysis that finds one
  suggestion per episode.
\<close>

definition full_network :: "string \<Rightarrow> fetch_outcome" where
  "full_network url = FetchDone ''audio''"

definition sample_transcribe :: "directory \<Rightarrow> episode \<Rightarrow> string
    \<Rightarrow> (error + transcript option) \<times> directory" where
  "sample_transcribe w ep audio_path = (Inr (Some \<lparr> full_text = title ep, segments = None \<rparr>), w)"

definition sample_analyze :: "directory \<Rightarrow> episode \<Rightarrow> transcript \<Rightarrow> finding list \<times> directory" where
  "sample_analyze w ep tr =
     ([\<lparr> f_episode_number = episode_number ep, f_episode_title = title ep,
         f_timestamp = ''Unknown'', f_topic = JStr (full_text tr), f_quote = JStr [],
         f_context = JStr [] \<rparr>], w)"

definition sample_stages :: "(string \<Rightarrow> fetch_outcome) \<Rightarrow> directory stages" where
  "sample_stages http =
     \<lparr> download = fetcher_stage http, transcribe = sample_transcribe, analyze = sample_analyze \<rparr>"

text \<open>
  \<open>json.loads\<close> on the payloads of the examples below: the two arrays among them, and
  \<open>None\<close> for the others, which are not JSON.
\<close>

definition sample_loads :: "string \<Rightarrow> json option" where
  "sample_loads s =
     (if s = ''[]'' then Some (JArr [])
      else if s = ''[{}]'' then Some (JArr [JObj []])
      else None)"

text \<open>A finding of the episode with the given number, and a directory without reports.\<close>

definition sample_finding :: "ep_num \<Rightarrow> finding" where
  "sample_finding n =
     \<lparr> f_episode_number = n, f_episode_title = ''A title'', f_timestamp = ''2:05'',
       f_topic = JStr ''a topic'', f_quote = JStr ''a quote'', f_context = JStr ''some context'' \<rparr>"

definition no_reports :: reports where
  "no_reports = \<lparr> csv_file = None, md_file = None \<rparr>"

section \<open>Episode identifier: proofs\<close>

lemma lower_length: "lower w = lower lit \<Longrightarrow> length w = length lit"
  unfolding lower_def by (rule map_eq_imp_length_eq)

lemma takeWhile_run:
  "(\<forall>c\<in>set ds. P c) \<Longrightarrow> post = [] \<or> \<not> P (hd post) \<Longrightarrow> takeWhile P (ds @ post) = ds"
  by (cases post) (auto simp: takeWhile_append2)

lemma match_here_Some:
  "match_here lit s = Some ds \<longleftrightarrow>
     (\<exists>w post. s = w @ ds @ post \<and> lower w = lower lit \<and> ds \<noteq> []
        \<and> (\<forall>c\<in>set ds. is_digit c) \<and> (post = [] \<or> \<not> is_digit (hd post)))"
proof
  assume m: "match_here lit s = Some ds"
  let ?n = "length lit"
  from m have len: "?n \<le> length s" and low: "lower (take ?n s) = lower lit"
    and tw: "takeWhile is_digit (drop ?n s) = ds" and ne: "ds \<noteq> []"
    by (auto simp: match_here_def split: if_splits list.splits)
  have s: "s = take ?n s @ ds @ dropWhile is_digit (drop ?n s)"
    using tw by (metis append_take_drop_id takeWhile_dropWhile_id)
  have dig: "\<forall>c\<in>set ds. is_digit c"
    using tw by (auto dest: set_takeWhileD)
  have post: "dropWhile is_digit (drop ?n s) = [] \<or> \<not> is_digit (hd (dropWhile is_digit (drop ?n s)))"
    by (metis hd_dropWhile)
  show "\<exists>w post. s = w @ ds @ post \<and> lower w = lower lit \<and> ds \<noteq> []
        \<and> (\<forall>c\<in>set ds. is_digit c) \<and> (post = [] \<or> \<not> is_digit (hd post))"
    using s low ne dig post by blast
next
  assume "\<exists>w post. s = w @ ds @ post \<and> lower w = lower lit \<and> ds \<noteq> []
        \<and> (\<forall>c\<in>set ds. is_digit c) \<and> (post = [] \<or> \<not> is_digit (hd post))"
  then obtain w post where s: "s = w @ ds @ post" and low: "lower w = lower lit" and ne: "ds \<noteq> []"
    and dig: "\<forall>c\<in>set ds. is_digit c" and post: "post = [] \<or> \<not> is_digit (hd post)"
    by blast
  have lw: "length w = length lit" using low by (rule lower_length)
  have tw: "takeWhile is_digit (ds @ post) = ds" using dig post by (rule takeWhile_run)
  show "match_here lit s = Some ds"
    using s low ne lw tw by (cases ds) (auto simp: match_here_def)
qed

lemma match_here_None: "match_here lit s = None \<longleftrightarrow> \<not> occurs_at lit s 0"
proof -
  let ?n = "length lit"
  have "occurs_at lit s 0 \<longleftrightarrow> (\<exists>w d rest. s = w @ d # rest \<and> lower w = lower lit \<and> is_digit d)"
    by (auto simp: occurs_at_def)
  also have "\<dots> \<longleftrightarrow> (?n \<le> length s \<and> lower (take ?n s) = lower lit
       \<and> (\<exists>d rest. drop ?n s = d # rest \<and> is_digit d))"
  proof
    assume "\<exists>w d rest. s = w @ d # rest \<and> lower w = lower lit \<and> is_digit d"
    then obtain w d rest where s: "s = w @ d # rest" and low: "lower w = lower lit" and d: "is_digit d"
      by blast
    have lw: "length w = ?n" using low by (rule lower_length)
    show "?n \<le> length s \<and> lower (take ?n s) = lower lit \<and> (\<exists>d rest. drop ?n s = d # rest \<and> is_digit d)"
      using s low d lw by auto
  next
    assume a: "?n \<le> length s \<and> lower (take ?n s) = lower lit \<and> (\<exists>d rest. drop ?n s = d # rest \<and> is_digit d)"
    then obtain d rest where dr: "drop ?n s = d # rest" and d: "is_digit d" by blast
    have "s = take ?n s @ d # rest" using dr by (metis append_take_drop_id)
    with a d show "\<exists>w d rest. s = w @ d # rest \<and> lower w = lower lit \<and> is_digit d" by blast
  qed
  also have "\<dots> \<longleftrightarrow> match_here lit s \<noteq> None"
    by (cases "drop ?n s") (auto simp: match_here_def split: list.splits)
  finally show ?thesis by blast
qed

lemma occurs_at_Suc: "occurs_at lit (c # cs) (Suc i) \<longleftrightarrow> occurs_at lit cs i"
proof
  assume "occurs_at lit (c # cs) (Suc i)"
  then obtain pre w d rest where t: "c # cs = pre @ w @ d # rest" and l: "length pre = Suc i"
    and low: "lower w = lower lit" and d: "is_digit d"
    unfolding occurs_at_def by blast
  from l obtain p pre' where pre: "pre = p # pre'" and l': "length pre' = i"
    by (cases pre) auto
  from t pre have "cs = pre' @ w @ d # rest" by simp
  with l' low d show "occurs_at lit cs i" unfolding occurs_at_def by blast
next
  assume "occurs_at lit cs i"
  then obtain pre w d rest where t: "cs = pre @ w @ d # rest" and l: "length pre = i"
    and low: "lower w = lower lit" and d: "is_digit d"
    unfolding occurs_at_def by blast
  have "c # cs = (c # pre) @ w @ d # rest" "length (c # pre) = Suc i"
    using t l by simp_all
  with low d show "occurs_at lit (c # cs) (Suc i)" unfolding occurs_at_def by blast
qed

lemma occurs_at_Nil: "\<not> occurs_at lit [] i"
  by (simp add: occurs_at_def)

lemma re_search_number_None:
  "re_search_number lit s = None \<longleftrightarrow> \<not> title_matches lit s"
proof (induction s)
  case Nil
  show ?case by (simp add: title_matches_def occurs_at_Nil match_here_def)
next
  case (Cons c cs)
  have "title_matches lit (c # cs) \<longleftrightarrow> occurs_at lit (c # cs) 0 \<or> title_matches lit cs"
    unfolding title_matches_def
    by (metis occurs_at_Suc not0_implies_Suc)
  with Cons show ?case
    using match_here_None [of lit "c # cs"] by (auto split: option.splits)
qed

lemma first_match_here:
  assumes "match_here lit s = Some ds"
  shows "first_match lit s ds"
proof -
  from assms obtain w post where "s = [] @ w @ ds @ post" "lower w = lower lit" "ds \<noteq> []"
     "\<forall>c\<in>set ds. is_digit c" "post = [] \<or> \<not> is_digit (hd post)"
    unfolding match_here_Some by auto
  then show ?thesis unfolding first_match_def by (metis list.size(3) le0)
qed

lemma first_match_Cons:
  assumes "match_here lit (c # cs) = None" and "first_match lit cs ds"
  shows "first_match lit (c # cs) ds"
proof -
  from assms(2) obtain pre w post where t: "cs = pre @ w @ ds @ post" and low: "lower w = lower lit"
    and ne: "ds \<noteq> []" and dig: "\<forall>c\<in>set ds. is_digit c" and post: "post = [] \<or> \<not> is_digit (hd post)"
    and least: "\<forall>j. occurs_at lit cs j \<longrightarrow> length pre \<le> j"
    unfolding first_match_def by blast
  have least': "\<forall>j. occurs_at lit (c # cs) j \<longrightarrow> length (c # pre) \<le> j"
  proof (intro allI impI)
    fix j assume o: "occurs_at lit (c # cs) j"
    with assms(1) have "j \<noteq> 0" using match_here_None by metis
    then obtain j' where j: "j = Suc j'" by (cases j) auto
    with o have "occurs_at lit cs j'" by (simp add: occurs_at_Suc)
    with least j show "length (c # pre) \<le> j" by simp
  qed
  have "c # cs = (c # pre) @ w @ ds @ post" using t by simp
  with low ne dig post least' show ?thesis unfolding first_match_def by blast
qed

lemma re_search_number_first:
  "re_search_number lit s = Some ds \<Longrightarrow> first_match lit s ds"
proof (induction s)
  case Nil
  then show ?case by (simp add: match_here_def split: if_splits)
next
  case (Cons c cs)
  show ?case
  proof (cases "match_here lit (c # cs)")
    case None
    with Cons show ?thesis by (simp add: first_match_Cons)
  next
    case (Some g)
    with Cons.prems have "g = ds" by simp
    with Some show ?thesis by (simp add: first_match_here)
  qed
qed

lemma first_match_occurs:
  assumes "first_match lit t ds"
  shows "title_matches lit t"
proof -
  from assms obtain pre w post where t: "t = pre @ w @ ds @ post" and low: "lower w = lower lit"
    and ne: "ds \<noteq> []" and dig: "\<forall>c\<in>set ds. is_digit c"
    unfolding first_match_def by blast
  from ne obtain d ds' where ds: "ds = d # ds'" by (cases ds) auto
  have "t = pre @ w @ d # (ds' @ post)" using t ds by simp
  moreover have "is_digit d" using dig ds by simp
  ultimately show ?thesis unfolding title_matches_def occurs_at_def using low by blast
qed

lemma first_match_unique:
  assumes "first_match lit t ds" and "first_match lit t ds'"
  shows "ds = ds'"
proof -
  from assms(1) obtain pre w post where t: "t = pre @ w @ ds @ post" and low: "lower w = lower lit"
    and ne: "ds \<noteq> []" and dig: "\<forall>c\<in>set ds. is_digit c" and post: "post = [] \<or> \<not> is_digit (hd post)"
    and least: "\<forall>j. occurs_at lit t j \<longrightarrow> length pre \<le> j"
    unfolding first_match_def by blast
  from assms(2) obtain pre' w' post' where t': "t = pre' @ w' @ ds' @ post'" and low': "lower w' = lower lit"
    and ne': "ds' \<noteq> []" and dig': "\<forall>c\<in>set ds'. is_digit c" and post': "post' = [] \<or> \<not> is_digit (hd post')"
    and least': "\<forall>j. occurs_at lit t j \<longrightarrow> length pre' \<le> j"
    unfolding first_match_def by blast
  have o: "occurs_at lit t (length pre)"
  proof -
    from ne obtain d r where "ds = d # r" by (cases ds) auto
    with t dig have "t = pre @ w @ d # (r @ post)" "is_digit d" by simp_all
    with low show ?thesis unfolding occurs_at_def by blast
  qed
  have o': "occurs_at lit t (length pre')"
  proof -
    from ne' obtain d r where "ds' = d # r" by (cases ds') auto
    with t' dig' have "t = pre' @ w' @ d # (r @ post')" "is_digit d" by simp_all
    with low' show ?thesis unfolding occurs_at_def by blast
  qed
  have "length pre \<le> length pre'" using least o' by blast
  moreover have "length pre' \<le> length pre" using least' o by blast
  ultimately have lp: "length pre = length pre'" by (rule le_antisym)
  have lw: "length w = length w'" using lower_length [OF low] lower_length [OF low'] by simp
  have e1: "pre @ (w @ ds @ post) = pre' @ (w' @ ds' @ post')"
    using t t' by (rule trans [OF sym])
  have e2: "w @ (ds @ post) = w' @ (ds' @ post')"
    using e1 lp append_eq_append_conv [of pre pre' "w @ ds @ post" "w' @ ds' @ post'"] by blast
  have e: "ds @ post = ds' @ post'"
    using e2 lw append_eq_append_conv [of w w' "ds @ post" "ds' @ post'"] by blast
  have "takeWhile is_digit (ds @ post) = ds" using dig post by (rule takeWhile_run)
  moreover have "takeWhile is_digit (ds' @ post') = ds'" using dig' post' by (rule takeWhile_run)
  ultimately show ?thesis using e by simp
qed

lemma re_search_number_Some:
  "re_search_number lit s = Some ds \<longleftrightarrow> first_match lit s ds"
proof
  assume "re_search_number lit s = Some ds"
  then show "first_match lit s ds" by (rule re_search_number_first)
next
  assume f: "first_match lit s ds"
  then have "title_matches lit s" by (rule first_match_occurs)
  then have "re_search_number lit s \<noteq> None" by (simp add: re_search_number_None)
  then obtain g where g: "re_search_number lit s = Some g" by blast
  then have "first_match lit s g" by (rule re_search_number_first)
  with f have "g = ds" by (rule first_match_unique [symmetric])
  with g show "re_search_number lit s = Some ds" by simp
qed


lemma digit_not_int_space: "is_digit c \<Longrightarrow> \<not> is_int_space c"
  by (auto simp: is_digit_def is_int_space_def)

lemma digit_not_sign: "is_digit c \<Longrightarrow> c \<noteq> CHR ''-'' \<and> c \<noteq> CHR ''+'' \<and> c \<noteq> CHR ''_''"
  by (auto simp: is_digit_def code_def)

lemma digits_ok_digits: "ds \<noteq> [] \<Longrightarrow> \<forall>c\<in>set ds. is_digit c \<Longrightarrow> digits_ok ds"
proof (induction ds rule: digits_ok.induct)
  case 1
  then show ?case by simp
next
  case (2 c)
  then show ?case by simp
next
  case (3 c d cs)
  then show ?case using digit_not_sign [of d] by simp
qed

lemma dropWhile_digits:
  assumes "ds \<noteq> []" and "\<forall>c\<in>set ds. is_digit c"
  shows "dropWhile is_int_space ds = ds"
  using assms by (cases ds) (auto simp: digit_not_int_space)

lemma py_int_digits:
  assumes "ds \<noteq> []" and "\<forall>c\<in>set ds. is_digit c"
  shows "py_int ds = Inr (int (dec_value ds))"
proof -
  have r: "rev ds \<noteq> []" "\<forall>c\<in>set (rev ds). is_digit c" using assms by simp_all
  have t: "rev (dropWhile is_int_space (rev (dropWhile is_int_space ds))) = ds"
    using dropWhile_digits [OF assms] dropWhile_digits [OF r] by simp
  have s: "split_sign ds = (False, ds)"
    using assms digit_not_sign [of "hd ds"] by (cases ds) (auto simp: split_sign_def)
  have f: "filter (\<lambda>c. c \<noteq> CHR ''_'') ds = ds"
    using assms(2) digit_not_sign by (simp add: filter_id_conv)
  show ?thesis
    unfolding py_int_def t using s f digits_ok_digits [OF assms] by simp
qed

text \<open>
  Claim C5. For every title, the identifier is the tag \<open>"P"\<close> followed by the digits of
  the first match of "Paid-only episode N" (case ignored) when the title matches that
  pattern, and then never an integer, although "Episode N" occurs in such a title too;
  otherwise it is the integer written by the digits of the first match of "Episode N"
  when the title matches that pattern; otherwise it is absent.
\<close>

theorem extract_episode_number_cases:
  "(first_match ''Paid-only episode '' t ds \<longrightarrow>
      extract_episode_number t = Inr (EpStr (CHR ''P'' # ds)))
 \<and> (title_matches ''Paid-only episode '' t \<longrightarrow>
      (\<exists>ds. first_match ''Paid-only episode '' t ds) \<and> (\<forall>n. extract_episode_number t \<noteq> Inr (EpInt n)))
 \<and> (\<not> title_matches ''Paid-only episode '' t \<and> first_match ''Episode '' t ds \<longrightarrow>
      extract_episode_number t = Inr (EpInt (int (dec_value ds))))
 \<and> (\<not> title_matches ''Paid-only episode '' t \<and> title_matches ''Episode '' t \<longrightarrow>
      (\<exists>ds. first_match ''Episode '' t ds))
 \<and> (\<not> title_matches ''Paid-only episode '' t \<and> \<not> title_matches ''Episode '' t \<longrightarrow>
      extract_episode_number t = Inr EpNone)"
proof (intro conjI impI)
  assume "first_match ''Paid-only episode '' t ds"
  then have "re_search_number ''Paid-only episode '' t = Some ds"
    by (simp add: re_search_number_Some)
  then show "extract_episode_number t = Inr (EpStr (CHR ''P'' # ds))"
    by (simp add: extract_episode_number_def)
next
  assume "title_matches ''Paid-only episode '' t"
  then have "re_search_number ''Paid-only episode '' t \<noteq> None"
    by (simp add: re_search_number_None)
  then obtain g where g: "re_search_number ''Paid-only episode '' t = Some g" by blast
  then show "\<exists>ds. first_match ''Paid-only episode '' t ds"
    using re_search_number_first by blast
  show "\<forall>n. extract_episode_number t \<noteq> Inr (EpInt n)"
    using g by (simp add: extract_episode_number_def)
next
  assume a: "\<not> title_matches ''Paid-only episode '' t \<and> first_match ''Episode '' t ds"
  then have n: "re_search_number ''Paid-only episode '' t = None"
    by (simp add: re_search_number_None)
  from a have s: "re_search_number ''Episode '' t = Some ds"
    by (simp add: re_search_number_Some)
  from a have "ds \<noteq> []" "\<forall>c\<in>set ds. is_digit c"
    unfolding first_match_def by blast+
  then have "py_int ds = Inr (int (dec_value ds))" by (rule py_int_digits)
  with n s show "extract_episode_number t = Inr (EpInt (int (dec_value ds)))"
    by (simp add: extract_episode_number_def)
next
  assume a: "\<not> title_matches ''Paid-only episode '' t \<and> title_matches ''Episode '' t"
  then have "re_search_number ''Episode '' t \<noteq> None"
    by (simp add: re_search_number_None)
  then show "\<exists>ds. first_match ''Episode '' t ds"
    using re_search_number_first by blast
next
  assume a: "\<not> title_matches ''Paid-only episode '' t \<and> \<not> title_matches ''Episode '' t"
  then have "re_search_number ''Paid-only episode '' t = None" "re_search_number ''Episode '' t = None"
    by (simp_all add: re_search_number_None)
  then show "extract_episode_number t = Inr EpNone"
    by (simp add: extract_episode_number_def)
qed

lemmas eval_chars = code_def is_digit_def is_upper_def lower_char_def lower_def

theorem extract_episode_number_cases_witness:
  "first_match ''Paid-only episode '' ''Paid-Only EPISODE 25: more on Episode 3'' ''25''
 \<and> title_matches ''Paid-only episode '' ''Paid-Only EPISODE 25: more on Episode 3''
 \<and> extract_episode_number ''Paid-Only EPISODE 25: more on Episode 3'' = Inr (EpStr ''P25'')
 \<and> \<not> title_matches ''Paid-only episode '' ''episode 007: Bond'' 
 \<and> first_match ''Episode '' ''episode 007: Bond'' ''007''
 \<and> extract_episode_number ''episode 007: Bond'' = Inr (EpInt 7)
 \<and> \<not> title_matches ''Paid-only episode '' ''Trailer'' \<and> \<not> title_matches ''Episode '' ''Trailer''
 \<and> extract_episode_number ''Trailer'' = Inr EpNone"
proof -
  let ?a = "''Paid-Only EPISODE 25: more on Episode 3''"
  let ?b = "''episode 007: Bond''"
  let ?c = "''Trailer''"
  have a1: "first_match ''Paid-only episode '' ?a ''25''"
    unfolding re_search_number_Some [symmetric] by (simp add: match_here_def eval_chars)
  have a2: "title_matches ''Paid-only episode '' ?a"
    using a1 by (rule first_match_occurs)
  have b1: "\<not> title_matches ''Paid-only episode '' ?b"
    unfolding re_search_number_None [symmetric] by (simp add: match_here_def eval_chars)
  have b2: "first_match ''Episode '' ?b ''007''"
    unfolding re_search_number_Some [symmetric] by (simp add: match_here_def eval_chars)
  have c1: "\<not> title_matches ''Paid-only episode '' ?c"
    unfolding re_search_number_None [symmetric] by (simp add: match_here_def eval_chars)
  have c2: "\<not> title_matches ''Episode '' ?c"
    unfolding re_search_number_None [symmetric] by (simp add: match_here_def eval_chars)
  have d: "int (dec_value ''007'') = 7"
    by (simp add: dec_value_def digit_val_def code_def)
  show ?thesis
    using a1 a2 b1 b2 c1 c2 d
      extract_episode_number_cases [of ?a "''25''"]
      extract_episode_number_cases [of ?b "''007''"]
      extract_episode_number_cases [of ?c "[]"]
    by simp
qed

section \<open>Audio fetcher: proofs\<close>

lemma replicate_small:
  "replicate 1 x = [x]" "replicate 2 x = [x, x]" "replicate 3 x = [x, x, x]"
  by (simp_all add: numeral_2_eq_2 numeral_3_eq_3)

lemmas eval_names = eval_chars replicate_small audio_filename_def safe_title_def sanitize_def strip_def
  is_word_def is_space_def is_sep_def fmt_0d_def zfill_def str_nat.simps digit_char_def

lemma sub_seps_chars: "c \<in> set (sub_seps s) \<Longrightarrow> (c \<in> set s \<and> \<not> is_sep c) \<or> c = CHR ''-''"
proof (induction s rule: sub_seps.induct)
  case 1
  then show ?case by simp
next
  case (2 x xs)
  show ?case
  proof (cases "is_sep x")
    case True
    with 2 show ?thesis by (auto dest: set_dropWhileD)
  next
    case False
    with 2 show ?thesis by auto
  qed
qed

lemma strip_subset: "c \<in> set (strip s) \<Longrightarrow> c \<in> set s"
  unfolding strip_def by (auto dest!: set_dropWhileD)

lemma sanitize_chars: "c \<in> set (sanitize t) \<Longrightarrow> is_word c \<or> c = CHR ''-''"
proof -
  assume "c \<in> set (sanitize t)"
  then have "(c \<in> set (strip (filter (\<lambda>c. is_word c \<or> is_space c \<or> c = CHR ''-'') t)) \<and> \<not> is_sep c)
      \<or> c = CHR ''-''"
    unfolding sanitize_def by (rule sub_seps_chars)
  then show ?thesis
    by (auto simp: is_sep_def dest!: strip_subset)
qed

lemma safe_title_chars: "c \<in> set (safe_title t) \<Longrightarrow> is_word c \<or> c = CHR ''-''"
  unfolding safe_title_def by (auto dest!: in_set_takeD sanitize_chars)

text \<open>
  Claim C3, as amended. For every episode without an episode number the audio cache file
  is named by the sanitized title cut to 50 characters, followed by \<open>.mp3\<close>: the title
  occurs once, with no separate prefix before it. That name has at most 50 characters
  before the extension, each a word character or a hyphen.
\<close>

theorem audio_filename_unnumbered:
  "episode_number ep = EpNone \<Longrightarrow>
     audio_filename ep = safe_title (title ep) @ ''.mp3''
   \<and> safe_title (title ep) = take 50 (sanitize (title ep))
   \<and> length (safe_title (title ep)) \<le> 50
   \<and> (\<forall>c\<in>set (safe_title (title ep)). is_word c \<or> c = CHR ''-'')"
  using safe_title_chars [of _ "title ep"] by (auto simp: audio_filename_def safe_title_def)

theorem audio_filename_unnumbered_witness:
  "episode_number \<lparr> title = ''Bonus: Q & A'', episode_number = EpNone, published = [],
      audio_url = None, link = [] \<rparr> = EpNone
 \<and> audio_filename \<lparr> title = ''Bonus: Q & A'', episode_number = EpNone, published = [],
      audio_url = None, link = [] \<rparr> = ''Bonus-Q-A.mp3''"
  using audio_filename_unnumbered [of "\<lparr> title = ''Bonus: Q & A'', episode_number = EpNone,
      published = [], audio_url = None, link = [] \<rparr>"]
  by (simp add: eval_names)

text \<open>The name is not of the shape title, underscore, title.\<close>

theorem audio_filename_unnumbered_counterexample:
  "extract_episode_number ''Trailer'' = Inr EpNone
 \<and> audio_filename \<lparr> title = ''Trailer'', episode_number = EpNone, published = [],
      audio_url = Some ''http://a/t.mp3'', link = [] \<rparr> = ''Trailer.mp3''
 \<and> sanitize ''Trailer'' @ ''_'' @ take 50 (sanitize ''Trailer'') @ ''.mp3'' = ''Trailer_Trailer.mp3''
 \<and> audio_filename \<lparr> title = ''Trailer'', episode_number = EpNone, published = [],
      audio_url = Some ''http://a/t.mp3'', link = [] \<rparr>
     \<noteq> sanitize ''Trailer'' @ ''_'' @ take 50 (sanitize ''Trailer'') @ ''.mp3''"
  by (simp add: extract_episode_number_def match_here_def eval_names)

text \<open>
  Claim C4, as amended. For every episode that has a non-empty audio URL, if a file
  exists at the computed cache path, the fetcher returns that path, leaves the directory
  as it is and issues no HTTP request.
\<close>

theorem download_cached:
  "audio_url ep = Some url \<Longrightarrow> url \<noteq> [] \<Longrightarrow> files (audio_filename ep) \<noteq> None \<Longrightarrow>
     download_episode http files ep = (Inr (Some (audio_filename ep)), files, [])"
  by (simp add: download_episode_def)

theorem download_cached_witness:
  "download_episode no_network [''012_Episode-12-Priming.mp3'' \<mapsto> ''audio'']
     \<lparr> title = ''Episode 12: Priming'', episode_number = EpInt 12, published = [],
       audio_url = Some ''http://a/12.mp3'', link = [] \<rparr>
   = (Inr (Some ''012_Episode-12-Priming.mp3''), [''012_Episode-12-Priming.mp3'' \<mapsto> ''audio''], [])"
  using download_cached [of "\<lparr> title = ''Episode 12: Priming'', episode_number = EpInt 12,
       published = [], audio_url = Some ''http://a/12.mp3'', link = [] \<rparr>" "''http://a/12.mp3''"
       "[''012_Episode-12-Priming.mp3'' \<mapsto> ''audio'']" no_network]
  by (simp add: eval_names)

text \<open>Without an audio URL the cached file is not returned.\<close>

theorem download_cached_counterexample:
  "[''007_Episode-7.mp3'' \<mapsto> ''audio'']
     (audio_filename \<lparr> title = ''Episode 7'', episode_number = EpInt 7, published = [],
        audio_url = None, link = [] \<rparr>) = Some ''audio''
 \<and> fst (download_episode no_network [''007_Episode-7.mp3'' \<mapsto> ''audio'']
       \<lparr> title = ''Episode 7'', episode_number = EpInt 7, published = [],
         audio_url = None, link = [] \<rparr>) = Inr None"
  by (simp add: download_episode_def eval_names)

lemma starts_with_P: "starts_with ''P'' (CHR ''P'' # ds)"
  by (simp add: starts_with_def)

text \<open>
  Claim C8, as amended. For every episode that has a non-empty audio URL and a paid tag
  \<open>"P"\<close> followed by the digits of N: if no file exists under the name built from the
  tag, but one exists under the name the episode would have with the plain number N
  (zero-padded to three digits), the fetcher returns that legacy path, leaves the
  directory as it is and issues no HTTP request.
\<close>

theorem download_legacy:
  "audio_url ep = Some url \<Longrightarrow> url \<noteq> [] \<Longrightarrow>
   episode_number ep = EpStr (CHR ''P'' # ds) \<Longrightarrow> ds \<noteq> [] \<Longrightarrow> \<forall>c\<in>set ds. is_digit c \<Longrightarrow>
   files (audio_filename ep) = None \<Longrightarrow>
   files (audio_filename (ep\<lparr>episode_number := EpInt (int (dec_value ds))\<rparr>)) \<noteq> None \<Longrightarrow>
     download_episode http files ep
       = (Inr (Some (audio_filename (ep\<lparr>episode_number := EpInt (int (dec_value ds))\<rparr>))), files, [])
   \<and> audio_filename (ep\<lparr>episode_number := EpInt (int (dec_value ds))\<rparr>)
       = fmt_0d 3 (int (dec_value ds)) @ ''_'' @ safe_title (title ep) @ ''.mp3''"
  using py_int_digits [of ds] starts_with_P [of ds]
  by (simp add: download_episode_def audio_filename_def)

theorem download_legacy_witness:
  "download_episode no_network [''025_Paid-only-episode-25-Bonus.mp3'' \<mapsto> ''old audio'']
     \<lparr> title = ''Paid-only episode 25: Bonus'', episode_number = EpStr ''P25'', published = [],
       audio_url = Some ''http://a/p25.mp3'', link = [] \<rparr>
   = (Inr (Some ''025_Paid-only-episode-25-Bonus.mp3''),
      [''025_Paid-only-episode-25-Bonus.mp3'' \<mapsto> ''old audio''], [])"
  using download_legacy [of "\<lparr> title = ''Paid-only episode 25: Bonus'', episode_number = EpStr ''P25'',
       published = [], audio_url = Some ''http://a/p25.mp3'', link = [] \<rparr>" "''http://a/p25.mp3''"
       "''25''" "[''025_Paid-only-episode-25-Bonus.mp3'' \<mapsto> ''old audio'']" no_network]
  by (simp add: eval_names dec_value_def digit_val_def)

text \<open>Without an audio URL the legacy file is not returned.\<close>

theorem download_legacy_counterexample:
  "[''002_Paid-only-episode-2.mp3'' \<mapsto> ''old audio'']
     (audio_filename \<lparr> title = ''Paid-only episode 2'', episode_number = EpStr ''P2'',
        published = [], audio_url = None, link = [] \<rparr>) = None
 \<and> [''002_Paid-only-episode-2.mp3'' \<mapsto> ''old audio'']
     (audio_filename \<lparr> title = ''Paid-only episode 2'', episode_number = EpInt 2,
        published = [], audio_url = None, link = [] \<rparr>) = Some ''old audio''
 \<and> fst (download_episode no_network [''002_Paid-only-episode-2.mp3'' \<mapsto> ''old audio'']
       \<lparr> title = ''Paid-only episode 2'', episode_number = EpStr ''P2'', published = [],
         audio_url = None, link = [] \<rparr>) = Inr None"
  by (simp add: download_episode_def eval_names)

text \<open>
  Claim C10. For every episode whose audio URL is absent, the fetcher returns \<open>None\<close>
  at once: whatever the directory holds, also a cached file under the expected name, the
  result is \<open>None\<close>, the directory is unchanged and no HTTP request is issued; and a
  driver whose download stage is the fetcher goes on to the next episode.
\<close>

theorem download_without_url:
  "audio_url ep = None \<Longrightarrow>
     download_episode http files ep = (Inr None, files, [])
   \<and> (download S = fetcher_stage http \<longrightarrow>
        process_loop S (ep # eps) all_findings a = process_loop S eps all_findings a)"
  by (simp add: download_episode_def fetcher_stage_def)

theorem download_without_url_witness:
  "[''Bonus-chat.mp3'' \<mapsto> ''audio'']
     (audio_filename \<lparr> title = ''Bonus chat'', episode_number = EpNone, published = [],
        audio_url = None, link = [] \<rparr>) = Some ''audio''
 \<and> download_episode full_network [''Bonus-chat.mp3'' \<mapsto> ''audio'']
       \<lparr> title = ''Bonus chat'', episode_number = EpNone, published = [],
         audio_url = None, link = [] \<rparr>
     = (Inr None, [''Bonus-chat.mp3'' \<mapsto> ''audio''], [])
 \<and> process_loop (sample_stages full_network)
       [\<lparr> title = ''Bonus chat'', episode_number = EpNone, published = [],
          audio_url = None, link = [] \<rparr>] []
       (init None [''Bonus-chat.mp3'' \<mapsto> ''audio''])
     = (Inr [], init None [''Bonus-chat.mp3'' \<mapsto> ''audio''])"
  using download_without_url [of "\<lparr> title = ''Bonus chat'', episode_number = EpNone,
       published = [], audio_url = None, link = [] \<rparr>" full_network
       "[''Bonus-chat.mp3'' \<mapsto> ''audio'']" "sample_stages full_network" "[]" "[]"
       "init None [''Bonus-chat.mp3'' \<mapsto> ''audio'']"]
  by (simp add: eval_names sample_stages_def)

section \<open>Timestamps: proofs\<close>

lemma starts_with_iff: "starts_with p s \<longleftrightarrow> (\<exists>post. s = p @ post)"
proof
  assume "starts_with p s"
  then have "s = p @ drop (length p) s"
    unfolding starts_with_def by (metis append_take_drop_id)
  then show "\<exists>post. s = p @ post" ..
next
  assume "\<exists>post. s = p @ post"
  then show "starts_with p s" unfolding starts_with_def by auto
qed

lemma py_in_iff: "py_in p s \<longleftrightarrow> is_substring p s"
proof (induction s)
  case Nil
  show ?case by (auto simp: is_substring_def)
next
  case (Cons c cs)
  have "is_substring p (c # cs) \<longleftrightarrow> (\<exists>post. c # cs = p @ post) \<or> is_substring p cs"
  proof
    assume "is_substring p (c # cs)"
    then obtain pre post where e: "c # cs = pre @ p @ post" unfolding is_substring_def by blast
    show "(\<exists>post. c # cs = p @ post) \<or> is_substring p cs"
    proof (cases pre)
      case Nil
      with e show ?thesis by auto
    next
      case (Cons x pre')
      with e have "cs = pre' @ p @ post" by simp
      then show ?thesis unfolding is_substring_def by blast
    qed
  next
    assume "(\<exists>post. c # cs = p @ post) \<or> is_substring p cs"
    then show "is_substring p (c # cs)"
    proof
      assume "\<exists>post. c # cs = p @ post"
      then obtain post where "c # cs = [] @ p @ post" by auto
      then show ?thesis unfolding is_substring_def by blast
    next
      assume "is_substring p cs"
      then obtain pre post where "cs = pre @ p @ post" unfolding is_substring_def by blast
      then have "c # cs = (c # pre) @ p @ post" by simp
      then show ?thesis unfolding is_substring_def by blast
    qed
  qed
  with Cons show ?case by (simp add: starts_with_iff)
qed

lemma scan_segments_none:
  "\<forall>seg\<in>set segs. \<not> segment_matches q seg \<Longrightarrow> scan_segments (take 50 (lower q)) segs = ''Unknown''"
  by (induction segs) (auto simp: segment_matches_def py_in_iff Let_def)

lemma scan_segments_first:
  "\<forall>seg\<in>set pre. \<not> segment_matches q seg \<Longrightarrow> segment_matches q seg \<Longrightarrow>
     scan_segments (take 50 (lower q)) (pre @ seg # post) = format_timestamp (seg_start seg)"
  by (induction pre) (auto simp: segment_matches_def py_in_iff Let_def)

lemma two_digits_fmt:
  assumes "0 \<le> n" and "n < 60"
  shows "fmt_0d 2 n = two_digits n"
proof (cases "nat n < 10")
  case True
  then have "str_nat (nat n) = [digit_char (nat n)]" by (simp add: str_nat.simps)
  with True assms show ?thesis
    by (simp add: fmt_0d_def zfill_def two_digits_def digit_char_def)
next
  case False
  then have "nat n div 10 < 10" using assms by simp
  then have "str_nat (nat n div 10) = [digit_char (nat n div 10)]" by (simp add: str_nat.simps)
  with False have "str_nat (nat n) = [digit_char (nat n div 10), digit_char (nat n mod 10)]"
    by (subst str_nat.simps) simp
  with assms show ?thesis
    by (simp add: fmt_0d_def zfill_def two_digits_def)
qed

lemma format_timestamp_clock: "format_timestamp s = clock \<lfloor>s\<rfloor>"
proof -
  let ?n = "\<lfloor>s\<rfloor>"
  have h: "\<lfloor>s / 3600\<rfloor> = ?n div 3600"
    using floor_divide_real_eq_div [of 3600 s] by simp
  have m0: "\<lfloor>py_mod s 3600\<rfloor> = ?n mod 3600"
  proof -
    have "py_mod s 3600 = s - of_int (3600 * (?n div 3600))"
      by (simp add: py_mod_def h)
    then have "\<lfloor>py_mod s 3600\<rfloor> = ?n - 3600 * (?n div 3600)"
      by (simp only: floor_diff_of_int)
    then show ?thesis by (simp add: minus_mult_div_eq_mod)
  qed
  have m: "\<lfloor>py_mod s 3600 / 60\<rfloor> = ?n mod 3600 div 60"
    using floor_divide_real_eq_div [of 60 "py_mod s 3600"] m0 by simp
  have s60: "\<lfloor>s / 60\<rfloor> = ?n div 60"
    using floor_divide_real_eq_div [of 60 s] by simp
  have sc: "\<lfloor>py_mod s 60\<rfloor> = ?n mod 60"
  proof -
    have "py_mod s 60 = s - of_int (60 * (?n div 60))"
      by (simp add: py_mod_def s60)
    then have "\<lfloor>py_mod s 60\<rfloor> = ?n - 60 * (?n div 60)"
      by (simp only: floor_diff_of_int)
    then show ?thesis by (simp add: minus_mult_div_eq_mod)
  qed
  have hp: "0 < ?n div 3600 \<longleftrightarrow> 3600 \<le> ?n"
    by (simp add: pos_imp_zdiv_pos_iff)
  have t1: "fmt_0d 2 (?n mod 3600 div 60) = two_digits (?n mod 3600 div 60)"
    by (rule two_digits_fmt) (simp_all add: div_less_iff_less_mult pos_imp_zdiv_nonneg_iff)
  have t2: "fmt_0d 2 (?n mod 60) = two_digits (?n mod 60)"
    by (rule two_digits_fmt) simp_all
  show ?thesis
    unfolding format_timestamp_def clock_def Let_def h m sc hp t1 t2 by simp
qed

text \<open>
  Claim C7. For every quote and transcript: the quote is lower-cased and cut to its first
  50 characters, the segments are scanned in order, and a segment matches when that
  prefix is a substring of its lower-cased text or the other way round. The start of the
  first matching segment is returned in the form \<open>H:MM:SS\<close> from one hour on and
  \<open>M:SS\<close> below (45 seconds give \<open>0:45\<close>, 125 give \<open>2:05\<close>, 3725 give \<open>1:02:05\<close>);
  \<open>Unknown\<close> is returned when no segment matches or the quote is empty.
\<close>

theorem find_timestamp_resolution:
  "find_timestamp tr (JStr []) = Inr ''Unknown''
 \<and> (segments tr = None \<longrightarrow> find_timestamp tr (JStr quote) = Inr ''Unknown'')
 \<and> (segments tr = Some segs \<and> (\<forall>seg\<in>set segs. \<not> segment_matches quote seg) \<longrightarrow>
      find_timestamp tr (JStr quote) = Inr ''Unknown'')
 \<and> (quote \<noteq> [] \<and> segments tr = Some (pre @ seg # post)
      \<and> (\<forall>s\<in>set pre. \<not> segment_matches quote s) \<and> segment_matches quote seg \<longrightarrow>
      find_timestamp tr (JStr quote) = Inr (format_timestamp (seg_start seg)))
 \<and> format_timestamp s = clock \<lfloor>s\<rfloor>
 \<and> format_timestamp 45 = ''0:45'' \<and> format_timestamp 125 = ''2:05''
 \<and> format_timestamp 3725 = ''1:02:05''"
proof (intro conjI impI)
  show "find_timestamp tr (JStr []) = Inr ''Unknown''"
    by (simp add: find_timestamp_def)
  show "find_timestamp tr (JStr quote) = Inr ''Unknown''" if "segments tr = None"
    using that by (simp add: find_timestamp_def)
  show "find_timestamp tr (JStr quote) = Inr ''Unknown''"
    if "segments tr = Some segs \<and> (\<forall>seg\<in>set segs. \<not> segment_matches quote seg)"
    using that scan_segments_none [of segs quote] by (simp add: find_timestamp_def)
  show "find_timestamp tr (JStr quote) = Inr (format_timestamp (seg_start seg))"
    if "quote \<noteq> [] \<and> segments tr = Some (pre @ seg # post)
      \<and> (\<forall>s\<in>set pre. \<not> segment_matches quote s) \<and> segment_matches quote seg"
    using that scan_segments_first [of pre quote seg post] by (simp add: find_timestamp_def)
  show "format_timestamp s = clock \<lfloor>s\<rfloor>"
    by (rule format_timestamp_clock)
  show "format_timestamp 45 = ''0:45''"
    by (simp add: format_timestamp_def py_mod_def str_int_def eval_names)
  show "format_timestamp 125 = ''2:05''"
    by (simp add: format_timestamp_def py_mod_def str_int_def eval_names)
  show "format_timestamp 3725 = ''1:02:05''"
    by (simp add: format_timestamp_def py_mod_def str_int_def eval_names)
qed

lemmas eval_match = segment_matches_def py_in_iff [symmetric] starts_with_def eval_chars

theorem find_timestamp_resolution_witness:
  "\<not> segment_matches ''We should do an EPISODE on priming'' \<lparr> seg_text = ''Welcome back.'', seg_start = 0 \<rparr>
 \<and> segment_matches ''We should do an EPISODE on priming''
       \<lparr> seg_text = ''I think we should do an episode on priming.'', seg_start = 3725.5 \<rparr>
 \<and> find_timestamp
       \<lparr> full_text = [], segments = Some
            [\<lparr> seg_text = ''Welcome back.'', seg_start = 0 \<rparr>,
             \<lparr> seg_text = ''I think we should do an episode on priming.'', seg_start = 3725.5 \<rparr>,
             \<lparr> seg_text = ''Priming.'', seg_start = 4000 \<rparr>] \<rparr>
       (JStr ''We should do an EPISODE on priming'') = Inr ''1:02:05''
 \<and> find_timestamp
       \<lparr> full_text = [], segments = Some [\<lparr> seg_text = ''Welcome back.'', seg_start = 0 \<rparr>] \<rparr>
       (JStr ''We should do an EPISODE on priming'') = Inr ''Unknown''"
proof -
  let ?q = "''We should do an EPISODE on priming''"
  let ?s1 = "\<lparr> seg_text = ''Welcome back.'', seg_start = 0 \<rparr>"
  let ?s2 = "\<lparr> seg_text = ''I think we should do an episode on priming.'', seg_start = 3725.5 \<rparr>"
  let ?s3 = "\<lparr> seg_text = ''Priming.'', seg_start = 4000 \<rparr>"
  have n1: "\<not> segment_matches ?q ?s1" by (simp add: eval_match)
  have m2: "segment_matches ?q ?s2" by (simp add: eval_match)
  have f: "format_timestamp 3725.5 = ''1:02:05''"
    by (simp add: format_timestamp_def py_mod_def str_int_def eval_names)
  show ?thesis
    using n1 m2 f
      find_timestamp_resolution [of "\<lparr> full_text = [], segments = Some [?s1, ?s2, ?s3] \<rparr>"
        ?q "[]" "[?s1]" ?s2 "[?s3]" 0]
      find_timestamp_resolution [of "\<lparr> full_text = [], segments = Some [?s1] \<rparr>"
        ?q "[?s1]" "[]" ?s1 "[]" 0]
    by simp
qed

section \<open>Payload extraction: proofs\<close>

lemma bracket_not_space: "\<not> is_space CHR ''[''" "\<not> is_space CHR '']''" "\<not> is_space (CHR 0x60)"
  by (simp_all add: is_space_def code_def)

lemma to_last_close_eq:
  assumes "CHR '']'' \<notin> set post"
  shows "to_last_close (body @ CHR '']'' # post) = body @ '']''"
proof -
  have "dropWhile (\<lambda>c. c \<noteq> CHR '']'') (rev post @ CHR '']'' # rev body) = CHR '']'' # rev body"
    using assms by (subst dropWhile_append2) auto
  then show ?thesis by (simp add: to_last_close_def)
qed

lemma search_bare_some:
  assumes "CHR ''['' \<notin> set pre" and "CHR '']'' \<notin> set post"
  shows "search_bare (pre @ CHR ''['' # body @ CHR '']'' # post) = Some (CHR ''['' # body @ '']'')"
  using assms(1)
proof (induction pre)
  case Nil
  show ?case using to_last_close_eq [OF assms(2)] by simp
next
  case (Cons x pre)
  then have "x \<noteq> CHR ''[''" by auto
  with Cons show ?case by simp
qed

lemma search_bare_none_iff: "search_bare r = None \<longleftrightarrow> \<not> has_brackets r"
proof (induction r)
  case Nil
  show ?case by (simp add: has_brackets_def)
next
  case (Cons c cs)
  have step: "has_brackets (c # cs) \<longleftrightarrow> (c = CHR ''['' \<and> CHR '']'' \<in> set cs) \<or> has_brackets cs"
  proof
    assume "has_brackets (c # cs)"
    then obtain pre body post where e: "c # cs = pre @ CHR ''['' # body @ CHR '']'' # post"
      unfolding has_brackets_def by blast
    show "(c = CHR ''['' \<and> CHR '']'' \<in> set cs) \<or> has_brackets cs"
    proof (cases pre)
      case Nil
      with e have "c = CHR ''[''" "cs = body @ CHR '']'' # post" by simp_all
      then show ?thesis by simp
    next
      case (Cons x pre')
      with e have "cs = pre' @ CHR ''['' # body @ CHR '']'' # post" by simp
      then show ?thesis unfolding has_brackets_def by blast
    qed
  next
    assume "(c = CHR ''['' \<and> CHR '']'' \<in> set cs) \<or> has_brackets cs"
    then show "has_brackets (c # cs)"
    proof
      assume a: "c = CHR ''['' \<and> CHR '']'' \<in> set cs"
      then obtain body post where "cs = body @ CHR '']'' # post" by (meson split_list)
      with a have "c # cs = [] @ CHR ''['' # body @ CHR '']'' # post" by simp
      then show ?thesis unfolding has_brackets_def by blast
    next
      assume "has_brackets cs"
      then obtain pre body post where "cs = pre @ CHR ''['' # body @ CHR '']'' # post"
        unfolding has_brackets_def by blast
      then have "c # cs = (c # pre) @ CHR ''['' # body @ CHR '']'' # post" by simp
      then show ?thesis unfolding has_brackets_def by blast
    qed
  qed
  show ?case using Cons step by simp
qed

lemma search_bare_shape:
  "search_bare r = Some g \<Longrightarrow>
     \<exists>pre body post. r = pre @ CHR ''['' # body @ CHR '']'' # post
       \<and> CHR ''['' \<notin> set pre \<and> CHR '']'' \<notin> set post \<and> g = CHR ''['' # body @ '']''"
proof (induction r)
  case Nil
  then show ?case by simp
next
  case (Cons c cs)
  show ?case
  proof (cases "c = CHR ''['' \<and> CHR '']'' \<in> set cs")
    case True
    then obtain body post where cs: "cs = body @ CHR '']'' # post" and p: "CHR '']'' \<notin> set post"
      by (meson split_list_last)
    from True Cons.prems have "g = c # to_last_close cs" by simp
    with cs p True have g: "g = CHR ''['' # body @ '']''" by (simp add: to_last_close_eq)
    have "c # cs = [] @ CHR ''['' # body @ CHR '']'' # post" using True cs by simp
    moreover have "CHR ''['' \<notin> set []" by simp
    ultimately show ?thesis using p g by blast
  next
    case False
    with Cons.prems have s: "search_bare cs = Some g" by auto
    from Cons.IH [OF s] obtain pre body post
      where cs: "cs = pre @ CHR ''['' # body @ CHR '']'' # post" and np: "CHR ''['' \<notin> set pre"
        and p: "CHR '']'' \<notin> set post" and g: "g = CHR ''['' # body @ '']''"
      by blast
    from cs have "CHR '']'' \<in> set cs" by simp
    with False have "c \<noteq> CHR ''[''" by blast
    with np have "CHR ''['' \<notin> set (c # pre)" by simp
    moreover have "c # cs = (c # pre) @ CHR ''['' # body @ CHR '']'' # post" using cs by simp
    ultimately show ?thesis using p g by blast
  qed
qed

lemma spaces_then:
  assumes "\<forall>c\<in>set gap. is_space c" and "\<not> is_space x"
  shows "dropWhile is_space (gap @ x # t) = x # t"
  using assms by (simp add: dropWhile_append2)

lemma fence_after_spaces:
  "starts_with backticks (dropWhile is_space cs)
     \<longleftrightarrow> (\<exists>gap post. cs = gap @ backticks @ post \<and> (\<forall>c\<in>set gap. is_space c))"
proof
  assume "starts_with backticks (dropWhile is_space cs)"
  then obtain post where d: "dropWhile is_space cs = backticks @ post"
    unfolding starts_with_iff by blast
  have "cs = takeWhile is_space cs @ backticks @ post"
    using d takeWhile_dropWhile_id [of is_space cs] by simp
  moreover have "\<forall>c\<in>set (takeWhile is_space cs). is_space c"
    by (auto dest: set_takeWhileD)
  ultimately show "\<exists>gap post. cs = gap @ backticks @ post \<and> (\<forall>c\<in>set gap. is_space c)"
    by blast
next
  assume "\<exists>gap post. cs = gap @ backticks @ post \<and> (\<forall>c\<in>set gap. is_space c)"
  then obtain gap post where cs: "cs = gap @ backticks @ post" and g: "\<forall>c\<in>set gap. is_space c"
    by blast
  have "dropWhile is_space (gap @ CHR 0x60 # CHR 0x60 # CHR 0x60 # post)
      = CHR 0x60 # CHR 0x60 # CHR 0x60 # post"
    using g bracket_not_space(3) by (rule spaces_then)
  then have "dropWhile is_space cs = backticks @ post"
    unfolding cs by (simp add: backticks_def)
  then show "starts_with backticks (dropWhile is_space cs)"
    unfolding starts_with_iff by blast
qed

lemma closing_Nil: "\<not> closing [] b"
  by (simp add: closing_def)

lemma closing_nonempty: "closing s b \<Longrightarrow> 1 \<le> length b"
  by (auto simp: closing_def)

lemma closing_Cons:
  "closing (c # cs) b \<longleftrightarrow>
     (c = CHR '']'' \<and> b = '']'' \<and> starts_with backticks (dropWhile is_space cs))
     \<or> (\<exists>b'. b = c # b' \<and> closing cs b')"
proof
  assume "closing (c # cs) b"
  then obtain body gap post where e: "c # cs = body @ CHR '']'' # gap @ backticks @ post"
    and g: "\<forall>c\<in>set gap. is_space c" and b: "b = body @ '']''"
    unfolding closing_def by blast
  show "(c = CHR '']'' \<and> b = '']'' \<and> starts_with backticks (dropWhile is_space cs))
     \<or> (\<exists>b'. b = c # b' \<and> closing cs b')"
  proof (cases body)
    case Nil
    with e have c: "c = CHR '']''" and cs: "cs = gap @ backticks @ post" by simp_all
    from cs g have "starts_with backticks (dropWhile is_space cs)"
      unfolding fence_after_spaces by blast
    with c b Nil show ?thesis by simp
  next
    case (Cons x body')
    with e have "c = x" and cs: "cs = body' @ CHR '']'' # gap @ backticks @ post" by simp_all
    from cs g have "closing cs (body' @ '']'')" unfolding closing_def by blast
    with b Cons \<open>c = x\<close> show ?thesis by simp
  qed
next
  assume "(c = CHR '']'' \<and> b = '']'' \<and> starts_with backticks (dropWhile is_space cs))
     \<or> (\<exists>b'. b = c # b' \<and> closing cs b')"
  then show "closing (c # cs) b"
  proof
    assume a: "c = CHR '']'' \<and> b = '']'' \<and> starts_with backticks (dropWhile is_space cs)"
    then obtain gap post where cs: "cs = gap @ backticks @ post" and g: "\<forall>c\<in>set gap. is_space c"
      unfolding fence_after_spaces by blast
    have "c # cs = [] @ CHR '']'' # gap @ backticks @ post" "b = [] @ '']''"
      using a cs by simp_all
    with g show ?thesis unfolding closing_def by blast
  next
    assume "\<exists>b'. b = c # b' \<and> closing cs b'"
    then obtain b' where b: "b = c # b'" and cl: "closing cs b'" by blast
    from cl obtain body gap post where cs: "cs = body @ CHR '']'' # gap @ backticks @ post"
      and g: "\<forall>c\<in>set gap. is_space c" and b': "b' = body @ '']''"
      unfolding closing_def by blast
    have "c # cs = (c # body) @ CHR '']'' # gap @ backticks @ post" "b = (c # body) @ '']''"
      using cs b b' by simp_all
    with g show ?thesis unfolding closing_def by blast
  qed
qed

lemma lazy_body_None: "lazy_body s = None \<Longrightarrow> \<not> closing s b"
proof (induction s arbitrary: b)
  case Nil
  show ?case by (rule closing_Nil)
next
  case (Cons c cs)
  from Cons.prems have n: "\<not> (c = CHR '']'' \<and> starts_with backticks (dropWhile is_space cs))"
    and l: "lazy_body cs = None"
    by (auto split: if_splits)
  show ?case
  proof
    assume "closing (c # cs) b"
    with n obtain b' where "closing cs b'" unfolding closing_Cons by blast
    with Cons.IH [OF l] show False by blast
  qed
qed

lemma lazy_body_Some:
  "lazy_body s = Some b \<Longrightarrow> closing s b \<and> (\<forall>b'. closing s b' \<longrightarrow> length b \<le> length b')"
proof (induction s arbitrary: b)
  case Nil
  then show ?case by simp
next
  case (Cons c cs)
  show ?case
  proof (cases "c = CHR '']'' \<and> starts_with backticks (dropWhile is_space cs)")
    case True
    with Cons.prems have b: "b = '']''" by simp
    with True have "closing (c # cs) b" unfolding closing_Cons by simp
    moreover have "\<forall>b'. closing (c # cs) b' \<longrightarrow> length b \<le> length b'"
      using b closing_nonempty by fastforce
    ultimately show ?thesis by blast
  next
    case False
    with Cons.prems obtain b0 where l: "lazy_body cs = Some b0" and b: "b = c # b0"
      by (auto split: if_splits)
    from Cons.IH [OF l] have c0: "closing cs b0"
      and m0: "\<forall>b'. closing cs b' \<longrightarrow> length b0 \<le> length b'" by blast+
    have "closing (c # cs) b" unfolding closing_Cons using b c0 by blast
    moreover have "\<forall>b'. closing (c # cs) b' \<longrightarrow> length b \<le> length b'"
    proof (intro allI impI)
      fix b' assume "closing (c # cs) b'"
      with False obtain b'' where "b' = c # b''" "closing cs b''" unfolding closing_Cons by blast
      with m0 b show "length b \<le> length b'" by simp
    qed
    ultimately show ?thesis by blast
  qed
qed

lemma fenced_here_canonical:
  assumes "\<forall>c\<in>set gap. is_space c"
  shows "fenced_here (backticks @ ''json'' @ gap @ CHR ''['' # rest)
           = map_option ((#) CHR ''['') (lazy_body rest)"
proof -
  let ?s = "backticks @ ''json'' @ gap @ CHR ''['' # rest"
  have s: "starts_with (backticks @ ''json'') ?s" unfolding starts_with_iff by auto
  have d: "drop 7 ?s = gap @ CHR ''['' # rest" by (simp add: backticks_def)
  have w: "dropWhile is_space (gap @ CHR ''['' # rest) = CHR ''['' # rest"
    using assms bracket_not_space(1) by (rule spaces_then)
  show ?thesis unfolding fenced_here_def using s d w by simp
qed

lemma fenced_here_shape:
  assumes "fenced_here s = Some arr"
  shows "\<exists>gap rest. s = backticks @ ''json'' @ gap @ CHR ''['' # rest \<and> (\<forall>c\<in>set gap. is_space c)"
proof -
  from assms have st: "starts_with (backticks @ ''json'') s"
    by (auto simp: fenced_here_def split: if_splits)
  then obtain t where s: "s = (backticks @ ''json'') @ t" unfolding starts_with_iff by blast
  then have d: "drop 7 s = t" by (simp add: backticks_def)
  from assms st d obtain cs where dw: "dropWhile is_space t = CHR ''['' # cs"
    by (auto simp: fenced_here_def split: list.splits if_splits)
  have "t = takeWhile is_space t @ CHR ''['' # cs"
    using dw takeWhile_dropWhile_id [of is_space t] by simp
  with s have "s = backticks @ ''json'' @ takeWhile is_space t @ CHR ''['' # cs" by simp
  moreover have "\<forall>c\<in>set (takeWhile is_space t). is_space c" by (auto dest: set_takeWhileD)
  ultimately show ?thesis by blast
qed

lemma fenced_at_0:
  "fenced_at s 0 arr \<longleftrightarrow>
     (\<exists>gap rest b. s = backticks @ ''json'' @ gap @ CHR ''['' # rest
        \<and> (\<forall>c\<in>set gap. is_space c) \<and> closing rest b \<and> arr = CHR ''['' # b)"
  by (auto simp: fenced_at_def)

lemma fenced_here_None: "fenced_here s = None \<Longrightarrow> \<not> fenced_at s 0 arr"
proof
  assume n: "fenced_here s = None" and "fenced_at s 0 arr"
  then obtain gap rest b where s: "s = backticks @ ''json'' @ gap @ CHR ''['' # rest"
    and g: "\<forall>c\<in>set gap. is_space c" and c: "closing rest b"
    unfolding fenced_at_0 by blast
  from n have "lazy_body rest = None"
    unfolding s fenced_here_canonical [OF g] by simp
  with c show False using lazy_body_None by blast
qed

lemma fenced_here_Some:
  assumes "fenced_here s = Some arr"
  shows "fenced_at s 0 arr \<and> (\<forall>arr'. fenced_at s 0 arr' \<longrightarrow> length arr \<le> length arr')"
proof
  obtain gap rest where s: "s = backticks @ ''json'' @ gap @ CHR ''['' # rest"
    and g: "\<forall>c\<in>set gap. is_space c"
    using fenced_here_shape [OF assms] by blast
  from assms obtain b where l: "lazy_body rest = Some b" and a: "arr = CHR ''['' # b"
    unfolding s fenced_here_canonical [OF g] by auto
  from lazy_body_Some [OF l] have "closing rest b" by blast
  with s g a show "fenced_at s 0 arr" unfolding fenced_at_0 by blast
  show "\<forall>arr'. fenced_at s 0 arr' \<longrightarrow> length arr \<le> length arr'"
  proof (intro allI impI)
    fix arr' assume "fenced_at s 0 arr'"
    then obtain gap' rest' b' where s': "s = backticks @ ''json'' @ gap' @ CHR ''['' # rest'"
      and g': "\<forall>c\<in>set gap'. is_space c" and c': "closing rest' b'" and a': "arr' = CHR ''['' # b'"
      unfolding fenced_at_0 by blast
    from assms obtain b0 where l': "lazy_body rest' = Some b0" and a0: "arr = CHR ''['' # b0"
      unfolding s' fenced_here_canonical [OF g'] by auto
    from lazy_body_Some [OF l'] c' have "length b0 \<le> length b'" by blast
    with a0 a' show "length arr \<le> length arr'" by simp
  qed
qed

lemma fenced_at_Nil: "\<not> fenced_at [] i arr"
  by (simp add: fenced_at_def backticks_def)

lemma fenced_at_Suc: "fenced_at (c # cs) (Suc i) arr \<longleftrightarrow> fenced_at cs i arr"
proof
  assume "fenced_at (c # cs) (Suc i) arr"
  then obtain pre gap rest b where e: "c # cs = pre @ backticks @ ''json'' @ gap @ CHR ''['' # rest"
    and l: "length pre = Suc i" and r: "(\<forall>c\<in>set gap. is_space c) \<and> closing rest b \<and> arr = CHR ''['' # b"
    unfolding fenced_at_def by blast
  from l obtain x pre' where p: "pre = x # pre'" and l': "length pre' = i" by (cases pre) auto
  from e p have "cs = pre' @ backticks @ ''json'' @ gap @ CHR ''['' # rest" by simp
  with l' r show "fenced_at cs i arr" unfolding fenced_at_def by blast
next
  assume "fenced_at cs i arr"
  then obtain pre gap rest b where e: "cs = pre @ backticks @ ''json'' @ gap @ CHR ''['' # rest"
    and l: "length pre = i" and r: "(\<forall>c\<in>set gap. is_space c) \<and> closing rest b \<and> arr = CHR ''['' # b"
    unfolding fenced_at_def by blast
  have "c # cs = (c # pre) @ backticks @ ''json'' @ gap @ CHR ''['' # rest" "length (c # pre) = Suc i"
    using e l by simp_all
  with r show "fenced_at (c # cs) (Suc i) arr" unfolding fenced_at_def by blast
qed

lemma has_fenced_Cons:
  "has_fenced (c # cs) \<longleftrightarrow> (\<exists>arr. fenced_at (c # cs) 0 arr) \<or> has_fenced cs"
  unfolding has_fenced_def by (metis fenced_at_Suc not0_implies_Suc)

lemma search_fenced_None_iff: "search_fenced r = None \<longleftrightarrow> \<not> has_fenced r"
proof (induction r)
  case Nil
  show ?case by (simp add: has_fenced_def fenced_at_Nil)
next
  case (Cons c cs)
  show ?case
  proof (cases "fenced_here (c # cs)")
    case None
    then have "\<not> (\<exists>arr. fenced_at (c # cs) 0 arr)" using fenced_here_None by blast
    with None Cons show ?thesis by (simp add: has_fenced_Cons)
  next
    case (Some g)
    then have "fenced_at (c # cs) 0 g" using fenced_here_Some by blast
    then have "has_fenced (c # cs)" unfolding has_fenced_def by blast
    with Some show ?thesis by simp
  qed
qed

lemma search_fenced_first: "search_fenced r = Some arr \<Longrightarrow> first_fenced r arr"
proof (induction r)
  case Nil
  then show ?case by simp
next
  case (Cons c cs)
  show ?case
  proof (cases "fenced_here (c # cs)")
    case (Some g)
    with Cons.prems have g: "g = arr" by simp
    from fenced_here_Some [OF Some] g
    have "fenced_at (c # cs) 0 arr"
      and "\<forall>arr'. fenced_at (c # cs) 0 arr' \<longrightarrow> length arr \<le> length arr'" by blast+
    then have "fenced_at (c # cs) 0 arr
        \<and> (\<forall>j arr'. fenced_at (c # cs) j arr' \<longrightarrow> 0 < j \<or> (0 = j \<and> length arr \<le> length arr'))"
      by (metis neq0_conv)
    then show ?thesis unfolding first_fenced_def by blast
  next
    case None
    with Cons.prems have "search_fenced cs = Some arr" by simp
    then have "first_fenced cs arr" by (rule Cons.IH)
    then obtain i where f: "fenced_at cs i arr"
      and m: "\<forall>j arr'. fenced_at cs j arr' \<longrightarrow> i < j \<or> (i = j \<and> length arr \<le> length arr')"
      unfolding first_fenced_def by blast
    have f': "fenced_at (c # cs) (Suc i) arr" using f by (simp add: fenced_at_Suc)
    have m': "\<forall>j arr'. fenced_at (c # cs) j arr' \<longrightarrow>
        Suc i < j \<or> (Suc i = j \<and> length arr \<le> length arr')"
    proof (intro allI impI)
      fix j arr' assume a: "fenced_at (c # cs) j arr'"
      have "j \<noteq> 0"
      proof
        assume "j = 0"
        with a have "fenced_at (c # cs) 0 arr'" by simp
        with fenced_here_None [OF None] show False by blast
      qed
      then obtain j' where j: "j = Suc j'" by (cases j) auto
      with a have "fenced_at cs j' arr'" by (simp add: fenced_at_Suc)
      with m have "i < j' \<or> (i = j' \<and> length arr \<le> length arr')" by blast
      with j show "Suc i < j \<or> (Suc i = j \<and> length arr \<le> length arr')" by auto
    qed
    from f' m' show ?thesis unfolding first_fenced_def by blast
  qed
qed

lemma closing_prefix: "closing s b \<Longrightarrow> \<exists>t. s = b @ t"
  by (auto simp: closing_def)

lemma fenced_at_unique:
  assumes "fenced_at r i a" and "fenced_at r i a'" and "length a = length a'"
  shows "a = a'"
proof -
  from assms(1) obtain pre gap rest b
    where e: "r = pre @ backticks @ ''json'' @ gap @ CHR ''['' # rest" and l: "length pre = i"
      and g: "\<forall>c\<in>set gap. is_space c" and c: "closing rest b" and a: "a = CHR ''['' # b"
    unfolding fenced_at_def by blast
  from assms(2) obtain pre' gap' rest' b'
    where e': "r = pre' @ backticks @ ''json'' @ gap' @ CHR ''['' # rest'" and l': "length pre' = i"
      and g': "\<forall>c\<in>set gap'. is_space c" and c': "closing rest' b'" and a': "a' = CHR ''['' # b'"
    unfolding fenced_at_def by blast
  have e1: "pre @ (backticks @ ''json'' @ gap @ CHR ''['' # rest)
      = pre' @ (backticks @ ''json'' @ gap' @ CHR ''['' # rest')"
    using e e' by (rule trans [OF sym])
  have lp: "length pre = length pre'" using l l' by simp
  have e2: "backticks @ ''json'' @ gap @ CHR ''['' # rest = backticks @ ''json'' @ gap' @ CHR ''['' # rest'"
    using e1 lp append_eq_append_conv [of pre pre' "backticks @ ''json'' @ gap @ CHR ''['' # rest"
        "backticks @ ''json'' @ gap' @ CHR ''['' # rest'"]
    by blast
  have e3: "gap @ CHR ''['' # rest = gap' @ CHR ''['' # rest'"
    using e2 by simp
  have "dropWhile is_space (gap @ CHR ''['' # rest) = CHR ''['' # rest"
    using g bracket_not_space(1) by (rule spaces_then)
  moreover have "dropWhile is_space (gap' @ CHR ''['' # rest') = CHR ''['' # rest'"
    using g' bracket_not_space(1) by (rule spaces_then)
  ultimately have r: "rest = rest'" using e3 by simp
  obtain t where t: "rest = b @ t" using closing_prefix [OF c] by blast
  obtain t' where t': "rest = b' @ t'" using closing_prefix [OF c'] r by blast
  have "length b = length b'" using assms(3) a a' by simp
  moreover have "b @ t = b' @ t'" using t t' by (rule trans [OF sym])
  ultimately have "b = b'" using append_eq_append_conv [of b b' t t'] by blast
  with a a' show ?thesis by simp
qed

lemma first_fenced_unique:
  assumes "first_fenced r a" and "first_fenced r a'"
  shows "a = a'"
proof -
  from assms(1) obtain i where f: "fenced_at r i a"
    and m: "\<forall>j arr'. fenced_at r j arr' \<longrightarrow> i < j \<or> (i = j \<and> length a \<le> length arr')"
    unfolding first_fenced_def by blast
  from assms(2) obtain i' where f': "fenced_at r i' a'"
    and m': "\<forall>j arr'. fenced_at r j arr' \<longrightarrow> i' < j \<or> (i' = j \<and> length a' \<le> length arr')"
    unfolding first_fenced_def by blast
  have 1: "i < i' \<or> (i = i' \<and> length a \<le> length a')" using m f' by blast
  have 2: "i' < i \<or> (i' = i \<and> length a' \<le> length a)" using m' f by blast
  from 1 2 have i: "i = i'" and n: "length a = length a'" by auto
  from f f' i n show ?thesis using fenced_at_unique by blast
qed

lemma search_fenced_Some_iff: "search_fenced r = Some arr \<longleftrightarrow> first_fenced r arr"
proof
  assume "search_fenced r = Some arr"
  then show "first_fenced r arr" by (rule search_fenced_first)
next
  assume f: "first_fenced r arr"
  then have "has_fenced r" unfolding first_fenced_def has_fenced_def by blast
  then have "search_fenced r \<noteq> None" by (simp add: search_fenced_None_iff)
  then obtain g where g: "search_fenced r = Some g" by blast
  then have "first_fenced r g" by (rule search_fenced_first)
  with f have "g = arr" by (rule first_fenced_unique [symmetric])
  with g show "search_fenced r = Some arr" by simp
qed

lemma fenced_text_has_fenced:
  assumes "\<forall>c\<in>set gap. is_space c" and "\<forall>c\<in>set gap'. is_space c"
  shows "fenced_at (pre @ backticks @ ''json'' @ gap @ CHR ''['' # body @ CHR '']'' # gap' @ backticks @ post)
           (length pre) (CHR ''['' # body @ '']'')"
proof -
  have "closing (body @ CHR '']'' # gap' @ backticks @ post) (body @ '']'')"
    unfolding closing_def using assms(2) by blast
  then show ?thesis unfolding fenced_at_def using assms(1) by blast
qed

lemma enhance_all_keys:
  "enhance_all ep tr (map (\<lambda>x. JStr (f x)) xs) = (if xs = [] then Inr [] else Inl AttributeError)"
  by (cases xs) (simp_all add: enhance_def)

lemma analyze_not_array:
  assumes "\<forall>xs. json_loads (extract_json_payload r) \<noteq> Some (JArr xs)"
  shows "analyze_with_claude json_loads ep tr (Some r) = []"
proof (cases "json_loads (extract_json_payload r)")
  case None
  then show ?thesis by (simp add: analyze_with_claude_def parse_findings_def)
next
  case (Some v)
  with assms have "\<forall>xs. v \<noteq> JArr xs" by simp
  then have "parse_findings json_loads ep tr r = Inr [] \<or> (\<exists>e. parse_findings json_loads ep tr r = Inl e)"
    using Some by (cases v) (simp_all add: parse_findings_def iterate_def enhance_all_keys)
  then show ?thesis by (auto simp: analyze_with_claude_def)
qed

text \<open>
  Claim C6, as amended. For every response text the analysis extracts the payload by a
  three-branch rule and never raises. A response with a \<open>```json\<close>-fenced array yields
  the fenced array (the first one, read up to the first closing bracket that white space
  and the closing fence follow). A response without a fenced array in which an opening
  bracket is followed by a closing one yields the text from its first opening bracket to
  its last closing bracket, which is the bare array only when no bracket follows the
  array. A response with neither yields \<open>[]\<close> and so no findings. The findings are those
  of the payload when it parses to an array whose elements can all be enhanced; a payload
  that does not parse to an array, as any exception in parsing or enhancing, yields the
  empty list.
\<close>

theorem analyze_payload_branches:
  "(response = pre @ backticks @ ''json'' @ gap @ CHR ''['' # body @ CHR '']'' # gap' @ backticks @ post
      \<and> (\<forall>c\<in>set gap. is_space c) \<and> (\<forall>c\<in>set gap'. is_space c) \<longrightarrow> has_fenced response)
 \<and> (has_fenced response \<longrightarrow> first_fenced response (extract_json_payload response))
 \<and> (first_fenced response arr \<longrightarrow> extract_json_payload response = arr)
 \<and> (\<not> has_fenced response \<and> has_brackets response \<longrightarrow>
      (\<exists>p b q. response = p @ CHR ''['' # b @ CHR '']'' # q
         \<and> CHR ''['' \<notin> set p \<and> CHR '']'' \<notin> set q
         \<and> extract_json_payload response = CHR ''['' # b @ '']''))
 \<and> (\<not> has_fenced response \<and> response = pre @ CHR ''['' # body @ CHR '']'' # post
      \<and> CHR ''['' \<notin> set pre \<and> CHR '']'' \<notin> set post \<longrightarrow>
    extract_json_payload response = CHR ''['' # body @ '']'')
 \<and> (\<not> has_fenced response \<and> \<not> has_brackets response \<longrightarrow>
    extract_json_payload response = ''[]''
    \<and> (json_loads ''[]'' = Some (JArr []) \<longrightarrow>
         analyze_with_claude json_loads ep tr (Some response) = []))
 \<and> (json_loads (extract_json_payload response) = Some (JArr xs) \<and> enhance_all ep tr xs = Inr fs \<longrightarrow>
    analyze_with_claude json_loads ep tr (Some response) = fs)
 \<and> ((\<forall>ys. json_loads (extract_json_payload response) \<noteq> Some (JArr ys)) \<longrightarrow>
    analyze_with_claude json_loads ep tr (Some response) = [])
 \<and> (parse_findings json_loads ep tr response = Inl e \<longrightarrow>
    analyze_with_claude json_loads ep tr (Some response) = [])"
proof (intro conjI impI)
  assume a: "response = pre @ backticks @ ''json'' @ gap @ CHR ''['' # body @ CHR '']'' # gap' @ backticks @ post
      \<and> (\<forall>c\<in>set gap. is_space c) \<and> (\<forall>c\<in>set gap'. is_space c)"
  then have "fenced_at response (length pre) (CHR ''['' # body @ '']'')"
    using fenced_text_has_fenced [of gap gap' pre body post] by simp
  then show "has_fenced response" unfolding has_fenced_def by blast
next
  assume "has_fenced response"
  then have "search_fenced response \<noteq> None" by (simp add: search_fenced_None_iff)
  then obtain g where g: "search_fenced response = Some g" by blast
  then have "first_fenced response g" by (rule search_fenced_first)
  with g show "first_fenced response (extract_json_payload response)"
    by (simp add: extract_json_payload_def)
next
  assume "first_fenced response arr"
  then have "search_fenced response = Some arr" by (simp add: search_fenced_Some_iff)
  then show "extract_json_payload response = arr" by (simp add: extract_json_payload_def)
next
  assume a: "\<not> has_fenced response \<and> has_brackets response"
  then have n: "search_fenced response = None" by (simp add: search_fenced_None_iff)
  from a have "search_bare response \<noteq> None" by (simp add: search_bare_none_iff)
  then obtain g where g: "search_bare response = Some g" by blast
  from n g have "extract_json_payload response = g" by (simp add: extract_json_payload_def)
  with search_bare_shape [OF g]
  show "\<exists>p b q. response = p @ CHR ''['' # b @ CHR '']'' # q
         \<and> CHR ''['' \<notin> set p \<and> CHR '']'' \<notin> set q
         \<and> extract_json_payload response = CHR ''['' # b @ '']''"
    by auto
next
  assume a: "\<not> has_fenced response \<and> response = pre @ CHR ''['' # body @ CHR '']'' # post
      \<and> CHR ''['' \<notin> set pre \<and> CHR '']'' \<notin> set post"
  then have "\<not> has_fenced response" by blast
  then have "search_fenced response = None" by (simp add: search_fenced_None_iff)
  moreover have "search_bare response = Some (CHR ''['' # body @ '']'')"
    using a search_bare_some [of pre post body] by simp
  ultimately show "extract_json_payload response = CHR ''['' # body @ '']''"
    by (simp add: extract_json_payload_def)
next
  assume a: "\<not> has_fenced response \<and> \<not> has_brackets response"
  then have "search_fenced response = None" by (simp add: search_fenced_None_iff)
  moreover have "search_bare response = None" using a by (simp add: search_bare_none_iff)
  ultimately show p: "extract_json_payload response = ''[]''"
    by (simp add: extract_json_payload_def)
  show "analyze_with_claude json_loads ep tr (Some response) = []"
    if "json_loads ''[]'' = Some (JArr [])"
    using that p by (simp add: analyze_with_claude_def parse_findings_def iterate_def)
next
  assume "json_loads (extract_json_payload response) = Some (JArr xs) \<and> enhance_all ep tr xs = Inr fs"
  then show "analyze_with_claude json_loads ep tr (Some response) = fs"
    by (simp add: analyze_with_claude_def parse_findings_def iterate_def)
next
  assume "\<forall>ys. json_loads (extract_json_payload response) \<noteq> Some (JArr ys)"
  then show "analyze_with_claude json_loads ep tr (Some response) = []"
    by (rule analyze_not_array)
next
  assume "parse_findings json_loads ep tr response = Inl e"
  then show "analyze_with_claude json_loads ep tr (Some response) = []"
    by (simp add: analyze_with_claude_def)
qed

lemmas eval_payload = fenced_here_def starts_with_def backticks_def is_space_def code_def nl_def

theorem analyze_payload_branches_witness:
  "first_fenced (''x '' @ [CHR 0x60] @ '' y '' @ backticks @ ''json'' @ nl @ ''[{}]'' @ nl @ backticks @ '' Done.'') ''[{}]''
 \<and> extract_json_payload (''x '' @ [CHR 0x60] @ '' y '' @ backticks @ ''json'' @ nl @ ''[{}]'' @ nl @ backticks @ '' Done.'') = ''[{}]''
 \<and> analyze_with_claude sample_loads
       \<lparr> title = ''Episode 7'', episode_number = EpInt 7, published = [], audio_url = None, link = [] \<rparr>
       \<lparr> full_text = [], segments = Some [] \<rparr>
       (Some (''x '' @ [CHR 0x60] @ '' y '' @ backticks @ ''json'' @ nl @ ''[{}]'' @ nl @ backticks @ '' Done.''))
     = [\<lparr> f_episode_number = EpInt 7, f_episode_title = ''Episode 7'', f_timestamp = ''Unknown'',
          f_topic = JStr ''Unknown'', f_quote = JStr [], f_context = JStr [] \<rparr>]
 \<and> \<not> has_fenced ''Found: [{}] .'' \<and> has_brackets ''Found: [{}] .''
 \<and> extract_json_payload ''Found: [{}] .'' = ''[{}]''
 \<and> \<not> has_fenced (backticks @ ''json'' @ nl @ ''{}'' @ nl @ backticks)
 \<and> \<not> has_brackets (backticks @ ''json'' @ nl @ ''{}'' @ nl @ backticks)
 \<and> extract_json_payload (backticks @ ''json'' @ nl @ ''{}'' @ nl @ backticks) = ''[]''
 \<and> analyze_with_claude sample_loads
       \<lparr> title = ''Episode 7'', episode_number = EpInt 7, published = [], audio_url = None, link = [] \<rparr>
       \<lparr> full_text = [], segments = Some [] \<rparr>
       (Some (backticks @ ''json'' @ nl @ ''{}'' @ nl @ backticks)) = []"
proof -
  let ?ep = "\<lparr> title = ''Episode 7'', episode_number = EpInt 7, published = [], audio_url = None, link = [] \<rparr>"
  let ?tr = "\<lparr> full_text = [], segments = Some [] \<rparr>"
  let ?f = "\<lparr> f_episode_number = EpInt 7, f_episode_title = ''Episode 7'', f_timestamp = ''Unknown'',
          f_topic = JStr ''Unknown'', f_quote = JStr [], f_context = JStr [] \<rparr>"
  let ?r1 = "''x '' @ [CHR 0x60] @ '' y '' @ backticks @ ''json'' @ nl @ ''[{}]'' @ nl @ backticks @ '' Done.''"
  let ?r2 = "''Found: [{}] .''"
  let ?r3 = "backticks @ ''json'' @ nl @ ''{}'' @ nl @ backticks"
  have f1: "first_fenced ?r1 ''[{}]''"
    unfolding search_fenced_Some_iff [symmetric] by (simp add: eval_payload)
  have p1: "extract_json_payload ?r1 = ''[{}]''"
    using f1 analyze_payload_branches [where response = ?r1 and arr = "''[{}]''"] by simp
  have e: "enhance_all ?ep ?tr [JObj []] = Inr [?f]"
    by (simp add: enhance_def find_timestamp_def get_def)
  have l: "sample_loads ''[{}]'' = Some (JArr [JObj []])" "sample_loads ''[]'' = Some (JArr [])"
    by (simp_all add: sample_loads_def)
  have a1: "analyze_with_claude sample_loads ?ep ?tr (Some ?r1) = [?f]"
    using p1 e l analyze_payload_branches [where response = ?r1 and json_loads = sample_loads
        and ep = ?ep and tr = ?tr and xs = "[JObj []]" and fs = "[?f]"]
    by simp
  have n2: "\<not> has_fenced ?r2"
    unfolding search_fenced_None_iff [symmetric] by (simp add: eval_payload)
  have b2: "has_brackets ?r2"
    using search_bare_none_iff [of ?r2] by simp
  have p2: "extract_json_payload ?r2 = ''[{}]''"
    using n2 analyze_payload_branches [where response = ?r2 and pre = "''Found: ''"
        and body = "''{}''" and post = "'' .''"]
    by simp
  have n3: "\<not> has_fenced ?r3"
    unfolding search_fenced_None_iff [symmetric] by (simp add: eval_payload)
  have b3: "\<not> has_brackets ?r3"
    unfolding search_bare_none_iff [symmetric] by (simp add: backticks_def nl_def)
  have p3: "extract_json_payload ?r3 = ''[]''
      \<and> analyze_with_claude sample_loads ?ep ?tr (Some ?r3) = []"
    using n3 b3 l analyze_payload_branches [where response = ?r3
        and json_loads = sample_loads and ep = ?ep and tr = ?tr]
    by simp
  show ?thesis using f1 p1 a1 n2 b2 p2 n3 b3 p3 by simp
qed

text \<open>
  A bare array followed by more bracketed text is not parsed to that array: the payload
  runs to the last closing bracket, is not JSON, and the findings are empty.
\<close>

theorem analyze_bare_counterexample:
  "extract_json_payload ''[{}] and [{}]'' = ''[{}] and [{}]''
 \<and> analyze_with_claude sample_loads
       \<lparr> title = ''Episode 7'', episode_number = EpInt 7, published = [], audio_url = None, link = [] \<rparr>
       \<lparr> full_text = [], segments = Some [] \<rparr> (Some ''[{}] and [{}]'') = []
 \<and> analyze_with_claude sample_loads
       \<lparr> title = ''Episode 7'', episode_number = EpInt 7, published = [], audio_url = None, link = [] \<rparr>
       \<lparr> full_text = [], segments = Some [] \<rparr> (Some ''[{}]'')
     = [\<lparr> f_episode_number = EpInt 7, f_episode_title = ''Episode 7'', f_timestamp = ''Unknown'',
          f_topic = JStr ''Unknown'', f_quote = JStr [], f_context = JStr [] \<rparr>]"
  by (simp add: extract_json_payload_def fenced_here_def starts_with_def backticks_def
      to_last_close_def analyze_with_claude_def parse_findings_def sample_loads_def iterate_def
      enhance_def find_timestamp_def get_def)

section \<open>Pipeline driver: proofs\<close>

lemma process_loop_invariant:
  "progress_file (snd (process_loop S eps found a))
     = (if completed S eps (world a) = [] then progress_file a
        else Some ((progress a)\<lparr>results := found @ concat (completed S eps (world a))\<rparr>))
   \<and> (\<forall>fs. fst (process_loop S eps found a) = Inr fs \<longrightarrow>
          fs = found @ concat (completed S eps (world a)))"
proof (induction eps arbitrary: found a)
  case Nil
  show ?case by simp
next
  case (Cons ep eps)
  obtain r1 w1 where d: "download S (world a) ep = (r1, w1)" by (cases "download S (world a) ep")
  show ?case
  proof (cases r1)
    case (Inl e)
    with d show ?thesis by simp
  next
    case (Inr p)
    show ?thesis
    proof (cases p)
      case None
      with d Inr Cons.IH [of found "a\<lparr>world := w1\<rparr>"] show ?thesis by simp
    next
      case (Some audio_path)
      obtain r2 w2 where t: "transcribe S w1 ep audio_path = (r2, w2)"
        by (cases "transcribe S w1 ep audio_path")
      show ?thesis
      proof (cases r2)
        case (Inl e)
        with d t \<open>r1 = Inr p\<close> Some show ?thesis by simp
      next
        case r2: (Inr q)
        show ?thesis
        proof (cases q)
          case None
          with d t \<open>r1 = Inr p\<close> Some r2 Cons.IH [of found "a\<lparr>world := w2\<rparr>"]
          show ?thesis by simp
        next
          case tr: (Some tr)
          obtain findings w3 where an: "analyze S w2 ep tr = (findings, w3)"
            by (cases "analyze S w2 ep tr")
          let ?a1 = "save_progress (a\<lparr>world := w3, progress := (progress a)\<lparr>results := found @ findings\<rparr>\<rparr>)"
          have w: "world ?a1 = w3" "progress ?a1 = (progress a)\<lparr>results := found @ findings\<rparr>"
            "progress_file ?a1 = Some ((progress a)\<lparr>results := found @ findings\<rparr>)"
            by (simp_all add: save_progress_def)
          have l: "process_loop S (ep # eps) found a = process_loop S eps (found @ findings) ?a1"
            using d t an \<open>r1 = Inr p\<close> Some r2 tr by simp
          have c: "completed S (ep # eps) (world a) = findings # completed S eps w3"
            using d t an \<open>r1 = Inr p\<close> Some r2 tr by simp
          show ?thesis
            unfolding l c using Cons.IH [of "found @ findings" ?a1] w by simp
        qed
      qed
    qed
  qed
qed

text \<open>
  The state after the first episodes of a list is the state of a run on those episodes
  alone, so a statement about the end of every run is one about every point of a run.
\<close>

lemma process_loop_append:
  "process_loop S (xs @ ys) found a =
     (case process_loop S xs found a of
        (Inl e, a') \<Rightarrow> (Inl e, a')
      | (Inr found', a') \<Rightarrow> process_loop S ys found' a')"
  by (induction xs arbitrary: found a) (auto split: prod.splits sum.splits option.splits)

text \<open>
  Claim C2, as amended. The progress store loads the existing progress file on
  construction. After each episode that completes its pipeline, the saved record is the
  loaded one with its results replaced by the findings of the episodes completed so far
  in the current run, in processing order: that episode's findings after every finding
  recorded earlier in the run. Until the first episode of a run completes, the file is as
  the previous run left it; the results it held are not carried over into later saves.
\<close>

theorem process_episodes_saved_results:
  "progress (init file w) = load_progress file
 \<and> progress_file (snd (process_episodes S eps (init file w)))
     = (if completed S eps w = [] then file
        else Some ((load_progress file)\<lparr>results := concat (completed S eps w)\<rparr>))
 \<and> (\<forall>fs. fst (process_episodes S eps (init file w)) = Inr fs \<longrightarrow> fs = concat (completed S eps w))
 \<and> completed S [] w = []
 \<and> (download S w ep = (Inr (Some audio_path), w1) \<and> transcribe S w1 ep audio_path = (Inr (Some tr), w2)
      \<and> analyze S w2 ep tr = (findings, w3) \<longrightarrow>
      completed S (ep # eps) w = findings # completed S eps w3)"
  using process_loop_invariant [of S eps "[]" "init file w"]
  by (simp add: process_episodes_def init_def)

theorem process_episodes_saved_results_witness:
  "fst (process_episodes (sample_stages full_network)
     [\<lparr> title = ''Episode 2: B'', episode_number = EpInt 2, published = [],
        audio_url = Some ''http://a/2.mp3'', link = [] \<rparr>,
      \<lparr> title = ''Episode 1: A'', episode_number = EpInt 1, published = [],
        audio_url = Some ''http://a/1.mp3'', link = [] \<rparr>]
     (init None Map.empty))
   = Inr [\<lparr> f_episode_number = EpInt 2, f_episode_title = ''Episode 2: B'', f_timestamp = ''Unknown'',
            f_topic = JStr ''Episode 2: B'', f_quote = JStr [], f_context = JStr [] \<rparr>,
          \<lparr> f_episode_number = EpInt 1, f_episode_title = ''Episode 1: A'', f_timestamp = ''Unknown'',
            f_topic = JStr ''Episode 1: A'', f_quote = JStr [], f_context = JStr [] \<rparr>]
 \<and> progress_file (snd (process_episodes (sample_stages full_network)
     [\<lparr> title = ''Episode 2: B'', episode_number = EpInt 2, published = [],
        audio_url = Some ''http://a/2.mp3'', link = [] \<rparr>,
      \<lparr> title = ''Episode 1: A'', episode_number = EpInt 1, published = [],
        audio_url = Some ''http://a/1.mp3'', link = [] \<rparr>]
     (init None Map.empty)))
   = Some \<lparr> episodes_parsed = [], episodes_transcribed = [], episodes_analyzed = [],
       results =
         [\<lparr> f_episode_number = EpInt 2, f_episode_title = ''Episode 2: B'', f_timestamp = ''Unknown'',
            f_topic = JStr ''Episode 2: B'', f_quote = JStr [], f_context = JStr [] \<rparr>,
          \<lparr> f_episode_number = EpInt 1, f_episode_title = ''Episode 1: A'', f_timestamp = ''Unknown'',
            f_topic = JStr ''Episode 1: A'', f_quote = JStr [], f_context = JStr [] \<rparr>] \<rparr>"
proof -
  let ?e2 = "\<lparr> title = ''Episode 2: B'', episode_number = EpInt 2, published = [],
        audio_url = Some ''http://a/2.mp3'', link = [] \<rparr>"
  let ?e1 = "\<lparr> title = ''Episode 1: A'', episode_number = EpInt 1, published = [],
        audio_url = Some ''http://a/1.mp3'', link = [] \<rparr>"
  let ?f2 = "\<lparr> f_episode_number = EpInt 2, f_episode_title = ''Episode 2: B'', f_timestamp = ''Unknown'',
            f_topic = JStr ''Episode 2: B'', f_quote = JStr [], f_context = JStr [] \<rparr>"
  let ?f1 = "\<lparr> f_episode_number = EpInt 1, f_episode_title = ''Episode 1: A'', f_timestamp = ''Unknown'',
            f_topic = JStr ''Episode 1: A'', f_quote = JStr [], f_context = JStr [] \<rparr>"
  have c: "completed (sample_stages full_network) [?e2, ?e1] Map.empty = [[?f2], [?f1]]"
    by (simp add: sample_stages_def fetcher_stage_def download_episode_def fetch_to_def
        full_network_def sample_transcribe_def sample_analyze_def eval_names Let_def)
  have r: "fst (process_episodes (sample_stages full_network) [?e2, ?e1] (init None Map.empty))
      = Inr [?f2, ?f1]"
    by (simp add: process_episodes_def init_def save_progress_def
        sample_stages_def fetcher_stage_def download_episode_def fetch_to_def
        full_network_def sample_transcribe_def sample_analyze_def eval_names Let_def)
  show ?thesis
    using c r process_episodes_saved_results [of None Map.empty "sample_stages full_network"
        "[?e2, ?e1]"]
    by (simp add: load_progress_def)
qed

text \<open>
  A finding persisted by a previous run is gone from the file after the first save of the
  next run.
\<close>

theorem process_episodes_saved_results_counterexample:
  "progress_file (snd (process_episodes (sample_stages full_network)
     [\<lparr> title = ''Episode 9: New'', episode_number = EpInt 9, published = [],
        audio_url = Some ''http://a/9.mp3'', link = [] \<rparr>]
     (init (Some \<lparr> episodes_parsed = [], episodes_transcribed = [], episodes_analyzed = [],
          results = [\<lparr> f_episode_number = EpInt 8, f_episode_title = ''Episode 8: Old'',
             f_timestamp = ''0:45'', f_topic = JStr ''earlier'', f_quote = JStr ''q'',
             f_context = JStr ''c'' \<rparr>] \<rparr>) Map.empty)))
   = Some \<lparr> episodes_parsed = [], episodes_transcribed = [], episodes_analyzed = [],
       results = [\<lparr> f_episode_number = EpInt 9, f_episode_title = ''Episode 9: New'',
          f_timestamp = ''Unknown'', f_topic = JStr ''Episode 9: New'', f_quote = JStr [],
          f_context = JStr [] \<rparr>] \<rparr>"
  by (simp add: process_episodes_def init_def load_progress_def save_progress_def
      sample_stages_def fetcher_stage_def download_episode_def fetch_to_def
      full_network_def sample_transcribe_def sample_analyze_def eval_names Let_def)

section \<open>Report generator: proofs\<close>

lemmas eval_report = generate_report_def sort_reverse_def sort_key_finding_def py_int_def split_sign_def
  is_int_space_def dec_value_def digit_val_def csv_row_def md_row_def csv_header_def md_header_def
  replace_char_def ep_text_def str_int_def nl_def dq_def sample_finding_def no_reports_def
  csv_first_field_def md_first_cell_def eval_names

text \<open>
  Claim C1 says that the reports list regular episodes first, paid episodes next and
  unnumbered ones last, so that findings numbered 5, \<open>"P3"\<close>, \<open>None\<close>, 10 are rendered in
  the order 10, 5, \<open>"P3"\<close>, \<open>None\<close>. The sort is descending on keys whose first component
  is 0 for regular, 1 for paid and 2 for unnumbered episodes, so the groups come out the
  other way round: on these findings the sorted list, the lines of the CSV file and the
  rows of the Markdown table run \<open>None\<close>, \<open>"P3"\<close>, 10, 5.
\<close>

theorem generate_report_order:
  "(case generate_report
      [sample_finding (EpInt 5), sample_finding (EpStr ''P3''), sample_finding EpNone,
       sample_finding (EpInt 10)] no_reports of
      (e, sorted_findings, files) \<Rightarrow>
        e = None
      \<and> map f_episode_number sorted_findings = [EpNone, EpStr ''P3'', EpInt 10, EpInt 5]
      \<and> map_option (map csv_first_field \<circ> lines_of) (csv_file files)
          = Some [''Episode Number'', ''None'', ''P3'', ''10'', ''5'', '''']
      \<and> map_option (map md_first_cell \<circ> drop 6 \<circ> lines_of) (md_file files)
          = Some [''None'', ''P3'', ''10'', ''5'', ''''])"
  by (simp add: eval_report)

lemma keys_of_Inr:
  "keys_of key xs = Inr ks \<Longrightarrow> ks = map (projr \<circ> key) xs \<and> (\<forall>x\<in>set xs. key x = Inr (projr (key x)))"
  by (induction xs arbitrary: ks) (auto split: sum.splits)

lemma keys_of_total:
  "\<forall>x\<in>set xs. key x = Inr (projr (key x)) \<Longrightarrow> keys_of key xs = Inr (map (projr \<circ> key) xs)"
proof (induction xs)
  case Nil
  show ?case by simp
next
  case (Cons x xs)
  then have kx: "key x = Inr (projr (key x))" and ih: "keys_of key xs = Inr (map (projr \<circ> key) xs)"
    by simp_all
  from kx obtain k where k: "key x = Inr k" ..
  show ?case using ih by (simp add: k)
qed

lemma insort_key_decorated:
  "insort_key fst (k x, x) (map (\<lambda>z. (k z, z)) ys) = map (\<lambda>z. (k z, z)) (insort_key k x ys)"
  by (induction ys) simp_all

lemma sort_key_decorated:
  "sort_key fst (map (\<lambda>z. (k z, z)) zs) = map (\<lambda>z. (k z, z)) (sort_key k zs)"
  by (induction zs) (simp_all add: insort_key_decorated)

lemma zip_keys: "zip (map k xs) xs = map (\<lambda>z. (k z, z)) xs"
  by (induction xs) simp_all

lemma decorate_sort:
  "map snd (rev (sort_key fst (rev (zip (map k xs) xs)))) = rev (sort_key k (rev xs))"
proof -
  have "rev (zip (map k xs) xs) = map (\<lambda>z. (k z, z)) (rev xs)"
    by (simp add: zip_keys rev_map)
  then have "sort_key fst (rev (zip (map k xs) xs)) = map (\<lambda>z. (k z, z)) (sort_key k (rev xs))"
    by (simp only: sort_key_decorated)
  then have "rev (sort_key fst (rev (zip (map k xs) xs)))
      = map (\<lambda>z. (k z, z)) (rev (sort_key k (rev xs)))"
    by (simp only: rev_map)
  then show ?thesis by (simp add: comp_def)
qed

lemma sort_reverse_Inr:
  assumes "sort_reverse key xs = Inr ys"
  shows "ys = rev (sort_key (projr \<circ> key) (rev xs))"
    and "\<forall>x\<in>set xs. key x = Inr (projr (key x))"
proof -
  from assms obtain ks where ks: "keys_of key xs = Inr ks"
    and ys: "ys = map snd (rev (sort_key fst (rev (zip ks xs))))"
    by (auto simp: sort_reverse_def split: sum.splits)
  from ks have k: "ks = map (projr \<circ> key) xs" and t: "\<forall>x\<in>set xs. key x = Inr (projr (key x))"
    using keys_of_Inr by blast+
  show "ys = rev (sort_key (projr \<circ> key) (rev xs))"
    unfolding ys k by (rule decorate_sort)
  show "\<forall>x\<in>set xs. key x = Inr (projr (key x))" by (rule t)
qed

lemma sort_reverse_total:
  assumes "\<forall>x\<in>set xs. key x = Inr (projr (key x))"
  shows "sort_reverse key xs = Inr (rev (sort_key (projr \<circ> key) (rev xs)))"
  using keys_of_total [OF assms] by (simp add: sort_reverse_def decorate_sort)

lemma sort_reverse_idem:
  assumes "sort_reverse key xs = Inr ys"
  shows "sort_reverse key ys = Inr ys"
proof -
  let ?k = "projr \<circ> key"
  have ys: "ys = rev (sort_key ?k (rev xs))" and t: "\<forall>x\<in>set xs. key x = Inr (projr (key x))"
    using sort_reverse_Inr [OF assms] by blast+
  have "set ys = set xs" unfolding ys by simp
  with t have "\<forall>x\<in>set ys. key x = Inr (projr (key x))" by simp
  then have "sort_reverse key ys = Inr (rev (sort_key ?k (rev ys)))"
    by (rule sort_reverse_total)
  moreover have "rev ys = sort_key ?k (rev xs)" unfolding ys by simp
  moreover have "sort_key ?k (sort_key ?k (rev xs)) = sort_key ?k (rev xs)"
    by (rule sort_key_id_if_sorted) simp
  ultimately show ?thesis using ys by simp
qed

lemma generate_report_files:
  "\<exists>e s upd. (\<forall>F. generate_report findings F = (e, s, upd F)) \<and> (\<forall>F. upd (upd F) = upd F)
     \<and> (s = findings \<or> sort_reverse sort_key_finding findings = Inr s)"
proof (cases "sort_reverse sort_key_finding findings")
  case (Inl x)
  then have "\<forall>F. generate_report findings F = (Some x, findings, id F)"
    by (simp add: generate_report_def)
  then show ?thesis by (metis id_apply)
next
  case (Inr ys)
  obtain cl ce where c: "write_rows csv_row ys = (cl, ce)" by (cases "write_rows csv_row ys")
  show ?thesis
  proof (cases ce)
    case (Some e1)
    let ?upd = "\<lambda>F::reports. F\<lparr>csv_file := Some (csv_header @ cl)\<rparr>"
    have "\<forall>F. generate_report findings F = (Some e1, ys, ?upd F)"
      using Inr c Some by (simp add: generate_report_def)
    moreover have "\<forall>F. ?upd (?upd F) = ?upd F" by simp
    ultimately show ?thesis
      using Inr by (intro exI [of _ "Some e1"] exI [of _ ys] exI [of _ ?upd]) simp
  next
    case None
    obtain ml me where m: "write_rows md_row ys = (ml, me)" by (cases "write_rows md_row ys")
    let ?upd = "\<lambda>F::reports. F\<lparr>csv_file := Some (csv_header @ cl),
        md_file := Some (md_header (length ys) @ ml)\<rparr>"
    have "\<forall>F. generate_report findings F = (me, ys, ?upd F)"
      using Inr c None m by (simp add: generate_report_def)
    moreover have "\<forall>F. ?upd (?upd F) = ?upd F" by simp
    ultimately show ?thesis
      using Inr by (intro exI [of _ me] exI [of _ ys] exI [of _ ?upd]) simp
  qed
qed

lemma generate_report_same_list:
  assumes "generate_report findings files = (e, s, files')"
  shows "generate_report findings files' = (e, s, files')"
proof -
  obtain e0 s0 upd where g: "\<forall>F. generate_report findings F = (e0, s0, upd F)"
    and u: "\<forall>F. upd (upd F) = upd F"
    using generate_report_files [of findings] by blast
  from g assms have "e0 = e" "s0 = s" "upd files = files'" by simp_all
  with g u show ?thesis by metis
qed

lemma generate_report_sorted_list:
  assumes "generate_report findings files = (e, s, files')"
  shows "generate_report s files' = (e, s, files')"
proof -
  obtain e0 s0 upd where g: "\<forall>F. generate_report findings F = (e0, s0, upd F)"
    and c: "s0 = findings \<or> sort_reverse sort_key_finding findings = Inr s0"
    using generate_report_files [of findings] by blast
  from g assms have s0: "s0 = s" by simp
  have "generate_report s files' = generate_report findings files'"
  proof (cases "s = findings")
    case True
    then show ?thesis by simp
  next
    case False
    with c s0 have f: "sort_reverse sort_key_finding findings = Inr s" by simp
    then have "sort_reverse sort_key_finding s = Inr s" by (rule sort_reverse_idem)
    with f show ?thesis by (simp add: generate_report_def)
  qed
  with assms show ?thesis by (simp add: generate_report_same_list)
qed

text \<open>
  Claim C9. Report generation is idempotent. Run again on the results directory it left
  (the progress file unchanged), the script that regenerates the reports ends the same
  way and leaves the same CSV and Markdown files; and the analyzer's report generation,
  called again on the list it has sorted in place or on the list as it was, writes the
  same files.
\<close>

theorem report_generation_idempotent:
  "generate_report_only (snd (generate_report_only d)) = generate_report_only d
 \<and> (case generate_report findings files of
       (e, sorted_findings, files') \<Rightarrow>
         generate_report sorted_findings files' = (e, sorted_findings, files')
       \<and> generate_report findings files' = (e, sorted_findings, files'))"
proof
  show "generate_report_only (snd (generate_report_only d)) = generate_report_only d"
  proof (cases "progress_json d")
    case None
    then show ?thesis by (simp add: generate_report_only_def)
  next
    case (Some loaded)
    obtain e s files' where g: "generate_report (results loaded) (report_files d) = (e, s, files')"
      by (cases "generate_report (results loaded) (report_files d)") auto
    then have "generate_report (results loaded) files' = (e, s, files')"
      by (rule generate_report_same_list)
    with Some g show ?thesis by (simp add: generate_report_only_def)
  qed
  show "case generate_report findings files of
       (e, sorted_findings, files') \<Rightarrow>
         generate_report sorted_findings files' = (e, sorted_findings, files')
       \<and> generate_report findings files' = (e, sorted_findings, files')"
  proof -
    obtain e s files' where g: "generate_report findings files = (e, s, files')"
      by (cases "generate_report findings files") auto
    then show ?thesis
      using generate_report_sorted_list [OF g] generate_report_same_list [OF g] by simp
  qed
qed

theorem report_generation_idempotent_witness:
  "fst (generate_report_only
     \<lparr> progress_json = Some \<lparr> episodes_parsed = [], episodes_transcribed = [],
          episodes_analyzed = [],
          results = [sample_finding (EpInt 3), sample_finding (EpStr ''P1''), sample_finding (EpInt 12)] \<rparr>,
       report_files = no_reports \<rparr>) = None
 \<and> generate_report_only (snd (generate_report_only
     \<lparr> progress_json = Some \<lparr> episodes_parsed = [], episodes_transcribed = [],
          episodes_analyzed = [],
          results = [sample_finding (EpInt 3), sample_finding (EpStr ''P1''), sample_finding (EpInt 12)] \<rparr>,
       report_files = no_reports \<rparr>))
   = generate_report_only
     \<lparr> progress_json = Some \<lparr> episodes_parsed = [], episodes_transcribed = [],
          episodes_analyzed = [],
          results = [sample_finding (EpInt 3), sample_finding (EpStr ''P1''), sample_finding (EpInt 12)] \<rparr>,
       report_files = no_reports \<rparr>"
proof -
  let ?d = "\<lparr> progress_json = Some \<lparr> episodes_parsed = [], episodes_transcribed = [],
          episodes_analyzed = [],
          results = [sample_finding (EpInt 3), sample_finding (EpStr ''P1''), sample_finding (EpInt 12)] \<rparr>,
       report_files = no_reports \<rparr>"
  have "fst (generate_report_only ?d) = None"
    by (simp add: generate_report_only_def eval_report)
  then show ?thesis
    using report_generation_idempotent [of ?d "[]" no_reports] by simp
qed

end
